theory Spec2Isabelle
  imports Main "HOL-Library.Word" "HOL-Library.List_Lexorder" "HOL-Library.Monad_Syntax"
begin

section \<open>B+-tree nodes (refactor\_code/internal/storage/btree, node part)\<close>

text \<open>
  A page is a byte buffer laid out as
  \<^verbatim>\<open>| type 2B | nkeys 2B | pointers nkeys*8B | offsets nkeys*2B | key-values |\<close>
  with one \<^verbatim>\<open>| klen 2B | vlen 2B | key | val |\<close> record per key. The model keeps
  a node decoded: the length of its buffer, the two header fields and the
  (pointer, key, value) records written so far, in slot order. The offset list of
  the page is determined by the records (offset \<open>i\<close> is the end of record \<open>i - 1\<close>
  relative to the key-value area), so it is computed, in 16-bit arithmetic as the
  source does. Every function of the source fills the slots of a fresh node in
  increasing order; a write to any other slot, or a write that does not fit the
  buffer, is outside the decoded model and is reported as failure.

  A failing assertion, an out-of-range access and every other panic of the Go code
  is the value \<open>None\<close>.
\<close>

type_synonym byte = "8 word"
type_synonym bytes = "byte list"
type_synonym entry = "nat \<times> bytes \<times> bytes"

definition BNODE_NODE :: nat where "BNODE_NODE = 1"
definition BNODE_LEAF :: nat where "BNODE_LEAF = 2"
definition BTREE_PAGE_SIZE :: nat where "BTREE_PAGE_SIZE = 4096"
definition BTREE_MAX_KEY_SIZE :: nat where "BTREE_MAX_KEY_SIZE = 1000"
definition BTREE_MAX_VAL_SIZE :: nat where "BTREE_MAX_VAL_SIZE = 3000"
definition HEADER :: nat where "HEADER = 4"

text \<open>Truncation to \<^verbatim>\<open>uint16\<close>.\<close>

definition u16 :: "nat \<Rightarrow> nat" where
  "u16 n = n mod 65536"

record BNode =
  dlen :: nat
  btype :: nat
  nkeys :: nat
  ents :: "entry list"

text \<open>\<^verbatim>\<open>BNode{}\<close>: no buffer. \<^verbatim>\<open>BNode{data: make([]byte, n)}\<close>: a zeroed buffer.\<close>

definition BNode_nil :: BNode where
  "BNode_nil = \<lparr>dlen = 0, btype = 0, nkeys = 0, ents = []\<rparr>"

definition make_node :: "nat \<Rightarrow> BNode" where
  "make_node n = \<lparr>dlen = n, btype = 0, nkeys = 0, ents = []\<rparr>"

definition setHeader :: "BNode \<Rightarrow> nat \<Rightarrow> nat \<Rightarrow> BNode" where
  "setHeader node t n = node\<lparr>btype := t, nkeys := n\<rparr>"

definition kvsize :: "entry \<Rightarrow> nat" where
  "kvsize e = 4 + length (fst (snd e)) + length (snd (snd e))"

definition offs :: "entry list \<Rightarrow> nat \<Rightarrow> nat" where
  "offs es i = sum_list (map kvsize (take i es))"

definition getPtr :: "BNode \<Rightarrow> nat \<Rightarrow> nat option" where
  "getPtr node index =
     (if index < nkeys node \<and> index < length (ents node)
      then Some (fst (ents node ! index)) else None)"

definition getOffset :: "BNode \<Rightarrow> nat \<Rightarrow> nat option" where
  "getOffset node idx =
     (if idx = 0 then Some 0
      else if 1 \<le> idx \<and> idx \<le> nkeys node \<and> idx \<le> length (ents node)
      then Some (u16 (offs (ents node) idx)) else None)"

definition kvPos :: "BNode \<Rightarrow> nat \<Rightarrow> nat option" where
  "kvPos node idx =
     (if idx \<le> nkeys node
      then do { off \<leftarrow> getOffset node idx;
                Some (u16 (HEADER + nkeys node * 8 + nkeys node * 2 + off)) }
      else None)"

definition getKey :: "BNode \<Rightarrow> nat \<Rightarrow> bytes option" where
  "getKey node idx =
     (if idx < nkeys node \<and> idx < length (ents node)
      then Some (fst (snd (ents node ! idx))) else None)"

definition getVal :: "BNode \<Rightarrow> nat \<Rightarrow> bytes option" where
  "getVal node idx =
     (if idx < nkeys node \<and> idx < length (ents node)
      then Some (snd (snd (ents node ! idx))) else None)"

definition nbytes :: "BNode \<Rightarrow> nat option" where
  "nbytes node = kvPos node (nkeys node)"

text \<open>\<^verbatim>\<open>bytes.Compare\<close>: the lexicographic order of unsigned bytes.\<close>

definition bytes_Compare :: "bytes \<Rightarrow> bytes \<Rightarrow> int" where
  "bytes_Compare a b = (if a < b then - 1 else if a = b then 0 else 1)"

subsection \<open>nodeLookupLE (operations.go)\<close>

text \<open>
  The loop \<^verbatim>\<open>for i := uint16(1); i < nkeys; i++\<close> with the accumulator
  \<^verbatim>\<open>found\<close>; \<open>i < nkeys\<close> and \<open>nkeys\<close> is a 16-bit header field, so
  \<^verbatim>\<open>i++\<close> does not wrap.
\<close>

function lookupLE_loop :: "BNode \<Rightarrow> bytes \<Rightarrow> nat \<Rightarrow> nat \<Rightarrow> nat option" where
  "lookupLE_loop node key i found =
     (if i < nkeys node
      then (case getKey node i of
              None \<Rightarrow> None
            | Some k \<Rightarrow>
                (let cmp = bytes_Compare k key;
                     found' = (if cmp \<le> 0 then i else found)
                 in if cmp \<ge> 0 then Some found'
                    else lookupLE_loop node key (i + 1) found'))
      else Some found)"
  by pat_completeness auto
termination
  by (relation "measure (\<lambda>(node, key, i, found). nkeys node - i)") auto

definition nodeLookupLE :: "BNode \<Rightarrow> bytes \<Rightarrow> nat option" where
  "nodeLookupLE node key = lookupLE_loop node key 1 0"

subsection \<open>Building nodes (operations.go)\<close>

text \<open>
  16-bit subtraction: \<^verbatim>\<open>a - b\<close> on \<^verbatim>\<open>uint16\<close> wraps around when \<open>b > a\<close>.
\<close>

definition sub16 :: "nat \<Rightarrow> nat \<Rightarrow> nat" where
  "sub16 a b = (a + 65536 - b mod 65536) mod 65536"

text \<open>
  \<^verbatim>\<open>nodeAppendKV\<close> writes the pointer (\<^verbatim>\<open>setPtr\<close> asserts \<open>idx < nkeys\<close>), the
  record at \<^verbatim>\<open>kvPos(idx)\<close> and the offset of the next slot.
\<close>

definition nodeAppendKV :: "BNode \<Rightarrow> nat \<Rightarrow> nat \<Rightarrow> bytes \<Rightarrow> bytes \<Rightarrow> BNode option" where
  "nodeAppendKV node idx ptr key val =
     (if idx < nkeys node \<and> idx = length (ents node)
      then do { pos \<leftarrow> kvPos node idx;
                if pos + 4 + length key + length val \<le> dlen node
                then Some (node\<lparr>ents := ents node @ [(ptr, key, val)]\<rparr>)
                else None }
      else None)"

text \<open>
  \<^verbatim>\<open>nodeAppendRange\<close> copies \<open>n\<close> slots of \<open>old\<close>, from \<open>srcOld\<close>, to the slots of
  \<open>new\<close> from \<open>dstNew\<close>: pointers, rebased offsets and the key-value bytes
  \<^verbatim>\<open>old.data[kvPos(srcOld):kvPos(srcOld+n)]\<close>.
\<close>

definition nodeAppendRange :: "BNode \<Rightarrow> BNode \<Rightarrow> nat \<Rightarrow> nat \<Rightarrow> nat \<Rightarrow> BNode option" where
  "nodeAppendRange new old dstNew srcOld n =
     (if u16 (srcOld + n) \<le> nkeys old \<and> u16 (dstNew + n) \<le> nkeys new
      then if n = 0 then Some new
           else if dstNew = length (ents new) \<and> srcOld + n \<le> length (ents old)
           then do { pos \<leftarrow> kvPos new dstNew;
                     kbegin \<leftarrow> kvPos old srcOld;
                     kend \<leftarrow> kvPos old (srcOld + n);
                     if kbegin \<le> kend \<and> pos + (kend - kbegin) \<le> dlen new
                     then Some (new\<lparr>ents := ents new @ take n (drop srcOld (ents old))\<rparr>)
                     else None }
           else None
      else None)"

definition leafInsert :: "BNode \<Rightarrow> BNode \<Rightarrow> nat \<Rightarrow> bytes \<Rightarrow> bytes \<Rightarrow> BNode option" where
  "leafInsert new old idx key val =
     do { n1 \<leftarrow> nodeAppendRange (setHeader new BNODE_LEAF (u16 (nkeys old + 1))) old 0 0 idx;
          n2 \<leftarrow> nodeAppendKV n1 idx 0 key val;
          nodeAppendRange n2 old (u16 (idx + 1)) idx (sub16 (nkeys old) idx) }"

definition leafUpdate :: "BNode \<Rightarrow> BNode \<Rightarrow> nat \<Rightarrow> bytes \<Rightarrow> bytes \<Rightarrow> BNode option" where
  "leafUpdate new old idx key val =
     do { n1 \<leftarrow> nodeAppendRange (setHeader new BNODE_LEAF (nkeys old)) old 0 0 idx;
          n2 \<leftarrow> nodeAppendKV n1 idx 0 key val;
          nodeAppendRange n2 old (u16 (idx + 1)) (u16 (idx + 1)) (sub16 (nkeys old) (u16 (idx + 1))) }"

definition leafDelete :: "BNode \<Rightarrow> BNode \<Rightarrow> nat \<Rightarrow> BNode option" where
  "leafDelete new old idx =
     do { n1 \<leftarrow> nodeAppendRange (setHeader new BNODE_LEAF (sub16 (nkeys old) 1)) old 0 0 idx;
          nodeAppendRange n1 old idx (u16 (idx + 1)) (sub16 (nkeys old) (u16 (idx + 1))) }"

definition nodeMerge :: "BNode \<Rightarrow> BNode \<Rightarrow> BNode \<Rightarrow> BNode option" where
  "nodeMerge new left right =
     do { n1 \<leftarrow> nodeAppendRange (setHeader new (btype left) (u16 (nkeys left + nkeys right)))
                  left 0 0 (nkeys left);
          nodeAppendRange n1 right (nkeys left) 0 (nkeys right) }"

definition nodeReplace2Kid :: "BNode \<Rightarrow> BNode \<Rightarrow> nat \<Rightarrow> nat \<Rightarrow> bytes \<Rightarrow> BNode option" where
  "nodeReplace2Kid new old idx ptr key =
     do { n1 \<leftarrow> nodeAppendRange (setHeader new BNODE_NODE (sub16 (nkeys old) 1)) old 0 0 idx;
          n2 \<leftarrow> nodeAppendKV n1 idx ptr key [];
          nodeAppendRange n2 old (u16 (idx + 1)) (u16 (idx + 2)) (sub16 (nkeys old) (u16 (idx + 2))) }"

subsection \<open>Splitting (operations.go)\<close>

text \<open>
  \<^verbatim>\<open>left_bytes\<close> and \<^verbatim>\<open>right_bytes\<close> are the closures of \<^verbatim>\<open>nodeSplit2\<close>, with
  the captured \<open>nleft\<close> as an argument; both compute in \<^verbatim>\<open>uint16\<close>.
\<close>

definition left_bytes :: "BNode \<Rightarrow> nat \<Rightarrow> nat option" where
  "left_bytes old nleft =
     do { off \<leftarrow> getOffset old nleft; Some (u16 (4 + 8 * nleft + 2 * nleft + off)) }"

definition right_bytes :: "BNode \<Rightarrow> nat \<Rightarrow> nat option" where
  "right_bytes old nleft =
     do { nb \<leftarrow> nbytes old; lb \<leftarrow> left_bytes old nleft; Some (u16 (sub16 nb lb + 4)) }"

text \<open>
  \<^verbatim>\<open>for left_bytes() > BTREE_PAGE_SIZE { nleft-- }\<close>. With \<open>nleft = 0\<close> the left
  half has 4 bytes, so the decrement is never applied to 0.
\<close>

function split_shrink :: "BNode \<Rightarrow> nat \<Rightarrow> nat option" where
  "split_shrink old nleft =
     (case left_bytes old nleft of
        None \<Rightarrow> None
      | Some lb \<Rightarrow> if lb > BTREE_PAGE_SIZE then split_shrink old (nleft - 1) else Some nleft)"
  by pat_completeness auto
termination
proof (relation "measure (\<lambda>(old, nleft). nleft)")
  show "wf (measure (\<lambda>(old, nleft). nleft))" by simp
next
  fix old :: BNode and nleft lb :: nat
  assume lb: "left_bytes old nleft = Some lb" and big: "BTREE_PAGE_SIZE < lb"
  have "nleft \<noteq> 0"
  proof
    assume "nleft = 0"
    then have "lb = 4" using lb by (simp add: left_bytes_def getOffset_def u16_def)
    then show False using big by (simp add: BTREE_PAGE_SIZE_def)
  qed
  then show "((old, nleft - 1), (old, nleft)) \<in> measure (\<lambda>(old, nleft). nleft)" by simp
qed

text \<open>
  \<^verbatim>\<open>for right_bytes() > BTREE_PAGE_SIZE { nleft++ }\<close>. \<^verbatim>\<open>getOffset\<close> panics
  beyond \<open>nkeys\<close>, so the loop ends there at the latest; the increment is applied
  below \<open>nkeys\<close> only and does not wrap.
\<close>

function split_grow :: "BNode \<Rightarrow> nat \<Rightarrow> nat option" where
  "split_grow old nleft =
     (case right_bytes old nleft of
        None \<Rightarrow> None
      | Some rb \<Rightarrow> if rb > BTREE_PAGE_SIZE then split_grow old (nleft + 1) else Some nleft)"
  by pat_completeness auto
termination
proof (relation "measure (\<lambda>(old, nleft). Suc (nkeys old) - nleft)")
  show "wf (measure (\<lambda>(old, nleft). Suc (nkeys old) - nleft))" by simp
next
  fix old :: BNode and nleft rb :: nat
  assume rb: "right_bytes old nleft = Some rb"
  then obtain off where "getOffset old nleft = Some off"
    by (auto simp: right_bytes_def left_bytes_def split: Option.bind_splits)
  then have "nleft \<le> nkeys old"
    by (auto simp: getOffset_def split: if_splits)
  then show "((old, nleft + 1), (old, nleft)) \<in> measure (\<lambda>(old, nleft). Suc (nkeys old) - nleft)"
    by simp
qed

definition nodeSplit2 :: "BNode \<Rightarrow> BNode \<Rightarrow> BNode \<Rightarrow> (BNode \<times> BNode) option" where
  "nodeSplit2 left right old =
     (if nkeys old \<ge> 2
      then do { nleft1 \<leftarrow> split_shrink old (nkeys old div 2);
                if nleft1 \<ge> 1
                then do { nleft \<leftarrow> split_grow old nleft1;
                          if nleft < nkeys old
                          then do { let nright = sub16 (nkeys old) nleft;
                                    l \<leftarrow> nodeAppendRange (setHeader left (btype old) nleft) old 0 0 nleft;
                                    r \<leftarrow> nodeAppendRange (setHeader right (btype old) nright) old 0 nleft nright;
                                    rb \<leftarrow> nbytes r;
                                    if rb \<le> BTREE_PAGE_SIZE then Some (l, r) else None }
                          else None }
                else None }
      else None)"

text \<open>
  \<^verbatim>\<open>nodeSplit3\<close> returns the number of pieces and the array of pieces; the model
  returns the list of the pieces in use (\<^verbatim>\<open>split[:nsplit]\<close>).
  \<^verbatim>\<open>old.data = old.data[:BTREE_PAGE_SIZE]\<close> panics when the buffer is shorter.
\<close>

definition reslice :: "BNode \<Rightarrow> nat \<Rightarrow> BNode option" where
  "reslice node n = (if n \<le> dlen node then Some (node\<lparr>dlen := n\<rparr>) else None)"

definition nodeSplit3 :: "BNode \<Rightarrow> BNode list option" where
  "nodeSplit3 old =
     do { nb \<leftarrow> nbytes old;
          if nb \<le> BTREE_PAGE_SIZE
          then do { old' \<leftarrow> reslice old BTREE_PAGE_SIZE; Some [old'] }
          else do { (left, right) \<leftarrow> nodeSplit2 (make_node (2 * BTREE_PAGE_SIZE))
                                         (make_node BTREE_PAGE_SIZE) old;
                    lb \<leftarrow> nbytes left;
                    if lb \<le> BTREE_PAGE_SIZE
                    then do { left' \<leftarrow> reslice left BTREE_PAGE_SIZE; Some [left', right] }
                    else do { (leftleft, middle) \<leftarrow> nodeSplit2 (make_node BTREE_PAGE_SIZE)
                                                       (make_node BTREE_PAGE_SIZE) left;
                              llb \<leftarrow> nbytes leftleft;
                              if llb \<le> BTREE_PAGE_SIZE
                              then Some [leftleft, middle, right] else None } } }"

section \<open>The tree and its pager\<close>

text \<open>
  \<^verbatim>\<open>BTree\<close> holds the root page number and three callbacks \<^verbatim>\<open>get\<close>, \<^verbatim>\<open>new\<close>,
  \<^verbatim>\<open>del\<close>. The callbacks are those of the in-memory pager of the tests
  (kv-store/test\_btree.go, \<^verbatim>\<open>newC\<close>): a map from page numbers to nodes, where
  \<^verbatim>\<open>get\<close> and \<^verbatim>\<open>del\<close> assert that the page exists and \<^verbatim>\<open>new\<close> asserts that the
  node fits a page and that its page number is not in use. The Go pager takes the
  address of the buffer as the page number; the model numbers the buffers with a
  counter.
\<close>

record Pager =
  pages :: "nat \<rightharpoonup> BNode"
  next_ptr :: nat

definition pager_get :: "Pager \<Rightarrow> nat \<Rightarrow> BNode option" where
  "pager_get pg ptr = pages pg ptr"

definition pager_new :: "Pager \<Rightarrow> BNode \<Rightarrow> (nat \<times> Pager) option" where
  "pager_new pg node =
     do { nb \<leftarrow> nbytes node;
          if nb \<le> BTREE_PAGE_SIZE \<and> pages pg (next_ptr pg) = None
          then Some (next_ptr pg,
                     pg\<lparr>pages := (pages pg)(next_ptr pg \<mapsto> node), next_ptr := next_ptr pg + 1\<rparr>)
          else None }"

definition pager_del :: "Pager \<Rightarrow> nat \<Rightarrow> Pager option" where
  "pager_del pg ptr =
     (if pages pg ptr \<noteq> None then Some (pg\<lparr>pages := (pages pg)(ptr := None)\<rparr>) else None)"

record BTree =
  root :: nat
  pager :: Pager

datatype error = KeyTooLarge | ValueTooLarge

text \<open>\<^verbatim>\<open>checkLimit\<close>: \<open>None\<close> is the Go \<^verbatim>\<open>nil\<close> error.\<close>

definition checkLimit :: "bytes \<Rightarrow> bytes \<Rightarrow> error option" where
  "checkLimit key val =
     (if length key > BTREE_MAX_KEY_SIZE then Some KeyTooLarge
      else if length val > BTREE_MAX_VAL_SIZE then Some ValueTooLarge
      else None)"

subsection \<open>Insertion (operations.go)\<close>

text \<open>
  \<^verbatim>\<open>nodeReplaceKidN\<close> allocates each kid in turn and links it under its first key.
\<close>

fun appendKids :: "Pager \<Rightarrow> BNode \<Rightarrow> nat \<Rightarrow> BNode list \<Rightarrow> (BNode \<times> Pager) option" where
  "appendKids pg new i [] = Some (new, pg)"
| "appendKids pg new i (kid # kids) =
     do { (ptr, pg1) \<leftarrow> pager_new pg kid;
          k \<leftarrow> getKey kid 0;
          new1 \<leftarrow> nodeAppendKV new i ptr k [];
          appendKids pg1 new1 (i + 1) kids }"

definition nodeReplaceKidN :: "Pager \<Rightarrow> BNode \<Rightarrow> BNode \<Rightarrow> nat \<Rightarrow> BNode list \<Rightarrow> (BNode \<times> Pager) option" where
  "nodeReplaceKidN pg new old idx kids =
     do { let inc = length kids;
          n1 \<leftarrow> nodeAppendRange (setHeader new BNODE_NODE (sub16 (u16 (nkeys old + inc)) 1)) old 0 0 idx;
          (n2, pg1) \<leftarrow> appendKids pg n1 idx kids;
          n3 \<leftarrow> nodeAppendRange n2 old (u16 (idx + inc)) (u16 (idx + 1)) (sub16 (nkeys old) (u16 (idx + 1)));
          Some (n3, pg1) }"

text \<open>
  \<^verbatim>\<open>treeInsert\<close> and \<^verbatim>\<open>nodeInsert\<close> call each other; the body of \<^verbatim>\<open>nodeInsert\<close>
  is the branch for internal nodes. The recursion follows page numbers and need
  not end on a store with a cycle: not returning is \<open>None\<close>.
\<close>

partial_function (option) treeInsert :: "Pager \<Rightarrow> BNode \<Rightarrow> bytes \<Rightarrow> bytes \<Rightarrow> (BNode \<times> Pager) option" where
  "treeInsert pg node key val =
     do { idx \<leftarrow> nodeLookupLE node key;
          if btype node = BNODE_LEAF
          then do { k \<leftarrow> getKey node idx;
                    if key = k
                    then do { n \<leftarrow> leafUpdate (make_node (2 * BTREE_PAGE_SIZE)) node idx key val;
                              Some (n, pg) }
                    else do { n \<leftarrow> leafInsert (make_node (2 * BTREE_PAGE_SIZE)) node (u16 (idx + 1)) key val;
                              Some (n, pg) } }
          else if btype node = BNODE_NODE
          then do { kptr \<leftarrow> getPtr node idx;
                    knode \<leftarrow> pager_get pg kptr;
                    pg1 \<leftarrow> pager_del pg kptr;
                    (knode', pg2) \<leftarrow> treeInsert pg1 knode key val;
                    split \<leftarrow> nodeSplit3 knode';
                    nodeReplaceKidN pg2 (make_node (2 * BTREE_PAGE_SIZE)) node idx split }
          else None }"

declare treeInsert.simps [code]

definition nodeInsert :: "Pager \<Rightarrow> BNode \<Rightarrow> BNode \<Rightarrow> nat \<Rightarrow> bytes \<Rightarrow> bytes \<Rightarrow> (BNode \<times> Pager) option" where
  "nodeInsert pg new node idx key val =
     do { kptr \<leftarrow> getPtr node idx;
          knode \<leftarrow> pager_get pg kptr;
          pg1 \<leftarrow> pager_del pg kptr;
          (knode', pg2) \<leftarrow> treeInsert pg1 knode key val;
          split \<leftarrow> nodeSplit3 knode';
          nodeReplaceKidN pg2 new node idx split }"

text \<open>
  \<^verbatim>\<open>(*BTree).Insert\<close> returns an error or \<^verbatim>\<open>nil\<close>, and updates the tree; a panic
  is \<open>None\<close>.
\<close>

definition Insert :: "BTree \<Rightarrow> bytes \<Rightarrow> bytes \<Rightarrow> (error option \<times> BTree) option" where
  "Insert tree key val =
     (case checkLimit key val of
        Some err \<Rightarrow> Some (Some err, tree)
      | None \<Rightarrow>
          if root tree = 0
          then do { r1 \<leftarrow> nodeAppendKV (setHeader (make_node BTREE_PAGE_SIZE) BNODE_LEAF 2) 0 0 [] [];
                    r2 \<leftarrow> nodeAppendKV r1 1 0 key val;
                    (ptr, pg) \<leftarrow> pager_new (pager tree) r2;
                    Some (None, \<lparr>root = ptr, pager = pg\<rparr>) }
          else do { node \<leftarrow> pager_get (pager tree) (root tree);
                    pg1 \<leftarrow> pager_del (pager tree) (root tree);
                    (node', pg2) \<leftarrow> treeInsert pg1 node key val;
                    split \<leftarrow> nodeSplit3 node';
                    if length split > 1
                    then do { (r, pg3) \<leftarrow> appendKids pg2
                                 (setHeader (make_node BTREE_PAGE_SIZE) BNODE_NODE (length split)) 0 split;
                              (ptr, pg4) \<leftarrow> pager_new pg3 r;
                              Some (None, \<lparr>root = ptr, pager = pg4\<rparr>) }
                    else do { (ptr, pg3) \<leftarrow> pager_new pg2 (hd split);
                              Some (None, \<lparr>root = ptr, pager = pg3\<rparr>) } })"

subsection \<open>Lookup (operations.go)\<close>

text \<open>The \<^verbatim>\<open>for\<close> loop of \<^verbatim>\<open>(*BTree).Get\<close>, from the node it has reached.\<close>

partial_function (option) Get_loop :: "Pager \<Rightarrow> BNode \<Rightarrow> bytes \<Rightarrow> bytes option option" where
  "Get_loop pg node key =
     do { idx \<leftarrow> nodeLookupLE node key;
          if btype node = BNODE_LEAF
          then if idx < nkeys node
               then do { k \<leftarrow> getKey node idx;
                         if k = key then do { v \<leftarrow> getVal node idx; Some (Some v) }
                         else Some None }
               else Some None
          else if btype node = BNODE_NODE
          then do { ptr \<leftarrow> getPtr node idx;
                    child \<leftarrow> pager_get pg ptr;
                    Get_loop pg child key }
          else None }"

declare Get_loop.simps [code]

text \<open>
  \<^verbatim>\<open>(*BTree).Get\<close> returns \<^verbatim>\<open>(value, true)\<close> or \<^verbatim>\<open>(nil, false)\<close>: \<open>Some v\<close> or
  \<open>None\<close> inside the outer option of panics.
\<close>

definition Get :: "BTree \<Rightarrow> bytes \<Rightarrow> bytes option option" where
  "Get tree key =
     (if root tree = 0 then Some None
      else do { node \<leftarrow> pager_get (pager tree) (root tree);
                Get_loop (pager tree) node key })"

subsection \<open>Deletion (operations.go)\<close>

text \<open>
  \<^verbatim>\<open>shouldMerge\<close> returns the direction (-1 left, +1 right, 0 none) and the
  sibling read from the pager.
\<close>

definition shouldMerge :: "Pager \<Rightarrow> BNode \<Rightarrow> nat \<Rightarrow> BNode \<Rightarrow> (int \<times> BNode) option" where
  "shouldMerge pg node idx updated =
     do { ub \<leftarrow> nbytes updated;
          if ub > BTREE_PAGE_SIZE div 4 then Some (0, BNode_nil)
          else do {
            left \<leftarrow> (if idx > 0
                     then do { p \<leftarrow> getPtr node (idx - 1);
                               sibling \<leftarrow> pager_get pg p;
                               sb \<leftarrow> nbytes sibling;
                               if sub16 (u16 (sb + ub)) HEADER \<le> BTREE_PAGE_SIZE
                               then Some (Some sibling) else Some None }
                     else Some None);
            case left of
              Some sibling \<Rightarrow> Some (- 1, sibling)
            | None \<Rightarrow>
                if u16 (idx + 1) < nkeys node
                then do { p \<leftarrow> getPtr node (u16 (idx + 1));
                          sibling \<leftarrow> pager_get pg p;
                          sb \<leftarrow> nbytes sibling;
                          if sub16 (u16 (sb + ub)) HEADER \<le> BTREE_PAGE_SIZE
                          then Some (1, sibling) else Some (0, BNode_nil) }
                else Some (0, BNode_nil) } }"

text \<open>
  The part of \<^verbatim>\<open>nodeDelete\<close> after the recursive call: the old kid is freed and
  the updated kid is merged with a sibling or linked in its place. The last case
  of the \<^verbatim>\<open>switch\<close> asserts \<^verbatim>\<open>updated.nkeys() > 0\<close>.
\<close>

definition nodeDelete_link :: "Pager \<Rightarrow> BNode \<Rightarrow> nat \<Rightarrow> nat \<Rightarrow> BNode \<Rightarrow> (BNode \<times> Pager) option" where
  "nodeDelete_link pg1 node idx kptr updated =
     do { pg2 \<leftarrow> pager_del pg1 kptr;
          (mergeDir, sibling) \<leftarrow> shouldMerge pg2 node idx updated;
          if mergeDir < 0
          then do { merged \<leftarrow> nodeMerge (make_node BTREE_PAGE_SIZE) sibling updated;
                    lp \<leftarrow> getPtr node (sub16 idx 1);
                    pg3 \<leftarrow> pager_del pg2 lp;
                    (mp, pg4) \<leftarrow> pager_new pg3 merged;
                    mk \<leftarrow> getKey merged 0;
                    n \<leftarrow> nodeReplace2Kid (make_node BTREE_PAGE_SIZE) node (sub16 idx 1) mp mk;
                    Some (n, pg4) }
          else if mergeDir > 0
          then do { merged \<leftarrow> nodeMerge (make_node BTREE_PAGE_SIZE) updated sibling;
                    rp \<leftarrow> getPtr node (u16 (idx + 1));
                    pg3 \<leftarrow> pager_del pg2 rp;
                    (mp, pg4) \<leftarrow> pager_new pg3 merged;
                    mk \<leftarrow> getKey merged 0;
                    n \<leftarrow> nodeReplace2Kid (make_node BTREE_PAGE_SIZE) node idx mp mk;
                    Some (n, pg4) }
          else if nkeys updated > 0
          then nodeReplaceKidN pg2 (make_node BTREE_PAGE_SIZE) node idx [updated]
          else None }"

text \<open>
  \<^verbatim>\<open>treeDelete\<close> and \<^verbatim>\<open>nodeDelete\<close> call each other; the branch for internal
  nodes is the body of \<^verbatim>\<open>nodeDelete\<close>. The result \<^verbatim>\<open>BNode{}\<close> means that the
  key was not found.
\<close>

partial_function (option) treeDelete :: "Pager \<Rightarrow> BNode \<Rightarrow> bytes \<Rightarrow> (BNode \<times> Pager) option" where
  "treeDelete pg node key =
     do { idx \<leftarrow> nodeLookupLE node key;
          if btype node = BNODE_LEAF
          then do { k \<leftarrow> getKey node idx;
                    if key \<noteq> k then Some (BNode_nil, pg)
                    else do { n \<leftarrow> leafDelete (make_node BTREE_PAGE_SIZE) node idx; Some (n, pg) } }
          else if btype node = BNODE_NODE
          then do { kptr \<leftarrow> getPtr node idx;
                    kid \<leftarrow> pager_get pg kptr;
                    (updated, pg1) \<leftarrow> treeDelete pg kid key;
                    if dlen updated = 0 then Some (BNode_nil, pg1)
                    else nodeDelete_link pg1 node idx kptr updated }
          else None }"

declare treeDelete.simps [code]

definition nodeDelete :: "Pager \<Rightarrow> BNode \<Rightarrow> nat \<Rightarrow> bytes \<Rightarrow> (BNode \<times> Pager) option" where
  "nodeDelete pg node idx key =
     do { kptr \<leftarrow> getPtr node idx;
          kid \<leftarrow> pager_get pg kptr;
          (updated, pg1) \<leftarrow> treeDelete pg kid key;
          if dlen updated = 0 then Some (BNode_nil, pg1)
          else nodeDelete_link pg1 node idx kptr updated }"

text \<open>
  \<^verbatim>\<open>(*BTree).Delete\<close> of operations.go (the same text is in unnamed/part\_000)
  returns a \<^verbatim>\<open>bool\<close> only: the error of \<^verbatim>\<open>checkLimit\<close> is turned into
  \<^verbatim>\<open>false\<close>.
\<close>

definition Delete :: "BTree \<Rightarrow> bytes \<Rightarrow> (bool \<times> BTree) option" where
  "Delete tree key =
     (if root tree = 0 then Some (False, tree)
      else if checkLimit key [] \<noteq> None then Some (False, tree)
      else do { node \<leftarrow> pager_get (pager tree) (root tree);
                (updated, pg1) \<leftarrow> treeDelete (pager tree) node key;
                if dlen updated = 0 then Some (False, tree\<lparr>pager := pg1\<rparr>)
                else do { pg2 \<leftarrow> pager_del pg1 (root tree);
                          if btype updated = BNODE_NODE \<and> nkeys updated = 1
                          then do { p \<leftarrow> getPtr updated 0;
                                    Some (True, \<lparr>root = p, pager = pg2\<rparr>) }
                          else do { (p, pg3) \<leftarrow> pager_new pg2 updated;
                                    Some (True, \<lparr>root = p, pager = pg3\<rparr>) } } })"

subsection \<open>Lookup in unnamed/part\_000\<close>

text \<open>
  The older copy of the tree (unnamed/part\_000, lines 176-191) has the same Insert
  and Delete as operations.go, and this \<^verbatim>\<open>Get\<close>, which looks into the root node
  only. The helpers it calls are not in that file; they are those of operations.go.
\<close>

definition Get_part000 :: "BTree \<Rightarrow> bytes \<Rightarrow> bytes option option" where
  "Get_part000 tree key =
     (if root tree = 0 then Some None
      else do { node \<leftarrow> pager_get (pager tree) (root tree);
                idx \<leftarrow> nodeLookupLE node key;
                if idx < nkeys node
                then do { k \<leftarrow> getKey node idx;
                          if k = key then do { v \<leftarrow> getVal node idx; Some (Some v) }
                          else Some None }
                else Some None })"

section \<open>The free list and the transaction layer\<close>

text \<open>
  concurrent-reader-writer/define.go and transaction/define.go. Page numbers and
  versions are \<^verbatim>\<open>uint64\<close>; counts are Go \<^verbatim>\<open>int\<close>.
\<close>

type_synonym u64 = "64 word"

record FreeListData =
  head :: u64
  nodes :: "u64 list"
  total :: int
  offset :: int

record FreeList = FreeListData +
  version :: u64
  minReader :: u64
  freed :: "u64 list"

text \<open>\<^verbatim>\<open>(*FreeList).Pop\<close>: the page number returned and the list afterwards.\<close>

definition Pop :: "FreeList \<Rightarrow> u64 \<times> FreeList" where
  "Pop fl = (if total fl = 0 then (0, fl) else (head fl, fl\<lparr>total := total fl - 1\<rparr>))"

definition Add :: "FreeList \<Rightarrow> u64 list \<Rightarrow> FreeList" where
  "Add fl fr = fl\<lparr>freed := freed fl @ fr, total := total fl + int (length fr)\<rparr>"

text \<open>
  A reader holds its snapshot: the version, the tree (its root) and the mmap
  chunks, and its index in the heap of readers.
\<close>

record KVReader =
  rd_version :: u64
  rd_root :: u64
  rd_chunks :: "bytes list"
  rd_index :: int

text \<open>
  \<^verbatim>\<open>KV\<close>: of the tree only the root is read and written by the transaction
  layer. The two mutexes: \<^verbatim>\<open>writer\<close> is held for a whole write transaction and is
  a field of the model; the sections under \<^verbatim>\<open>mu\<close> are single steps.
\<close>

record KV =
  kv_root :: u64
  kv_free :: FreeListData
  kv_chunks :: "bytes list"
  kv_flushed :: u64
  kv_version :: u64
  kv_readers :: "KVReader list"
  writer_locked :: bool

text \<open>\<^verbatim>\<open>KVTX\<close> embeds \<^verbatim>\<open>KVReader\<close>.\<close>

record KVTX = KVReader +
  tx_root :: u64
  tx_free :: FreeList
  tx_nappend :: int
  tx_updates :: "u64 \<rightharpoonup> bytes option"

text \<open>
  \<^verbatim>\<open>Begin\<close>. \<^verbatim>\<open>kv.GetWriterMutex().Lock()\<close> does not return while another write
  transaction holds the mutex: \<open>None\<close>.
\<close>

definition Begin :: "KV \<Rightarrow> KVTX \<Rightarrow> (KV \<times> KVTX) option" where
  "Begin kv tx =
     (if writer_locked kv then None
      else
        let tx1 = tx\<lparr>tx_updates := Map.empty, rd_chunks := kv_chunks kv\<rparr>;
            kv1 = kv\<lparr>writer_locked := True\<rparr>;
            tx2 = tx1\<lparr>rd_version := kv_version kv1, tx_root := kv_root kv1\<rparr>;
            fl1 = (tx_free tx2)\<lparr>head := head (kv_free kv1), nodes := nodes (kv_free kv1),
                                  total := total (kv_free kv1), offset := offset (kv_free kv1)\<rparr>;
            fl2 = fl1\<lparr>version := kv_version kv1, minReader := kv_version kv1\<rparr>;
            fl3 = (if length (kv_readers kv1) > 0
                   then fl2\<lparr>minReader := rd_version (kv_readers kv1 ! 0)\<rparr> else fl2)
        in Some (kv1, tx2\<lparr>tx_free := fl3\<rparr>))"

text \<open>
  \<^verbatim>\<open>rollbackTX\<close>, and \<^verbatim>\<open>Commit\<close>. \<^verbatim>\<open>FlushPages\<close> and \<^verbatim>\<open>StoreMaster\<close> of this
  package return \<^verbatim>\<open>nil\<close>; \<^verbatim>\<open>Sync\<close> is the file's fsync, whose two outcomes are
  arguments of the model. The result is the error returned (\<open>None\<close> for
  \<^verbatim>\<open>nil\<close>), the store afterwards and the calls made to the disk, in order.
  The deferred \<^verbatim>\<open>Unlock\<close> of a mutex that is not locked is a fatal error.
\<close>

datatype commit_error = FsyncError
datatype io_call = CallFlushPages | CallSync | CallStoreMaster

definition rollbackTX :: "KV \<Rightarrow> KVTX \<Rightarrow> KV" where
  "rollbackTX kv tx = kv\<lparr>kv_root := tx_root tx, kv_flushed := 0\<rparr>"

definition Commit :: "bool \<Rightarrow> bool \<Rightarrow> KV \<Rightarrow> KVTX \<Rightarrow> (commit_error option \<times> KV \<times> io_call list) option" where
  "Commit sync1_ok sync2_ok kv tx =
     (if \<not> writer_locked kv then None
      else if kv_root kv = tx_root tx
      then Some (None, kv\<lparr>writer_locked := False\<rparr>, [])
      else if \<not> sync1_ok
      then Some (Some FsyncError, (rollbackTX kv tx)\<lparr>writer_locked := False\<rparr>,
                 [CallFlushPages, CallSync])
      else
        let kv1 = kv\<lparr>kv_flushed := kv_flushed kv + word_of_int (tx_nappend tx)\<rparr>;
            kv2 = kv1\<lparr>kv_free := FreeListData.truncate (tx_free tx)\<rparr>;
            kv3 = kv2\<lparr>kv_root := tx_root tx\<rparr>
        in if \<not> sync2_ok
           then Some (Some FsyncError, kv3\<lparr>writer_locked := False\<rparr>,
                      [CallFlushPages, CallSync, CallStoreMaster, CallSync])
           else Some (None, kv3\<lparr>writer_locked := False\<rparr>,
                      [CallFlushPages, CallSync, CallStoreMaster, CallSync]))"

text \<open>
  The reader list is a binary min-heap by version, kept by \<^verbatim>\<open>container/heap\<close>
  through \<^verbatim>\<open>Less\<close>: no element is less than its parent.
\<close>

definition ReaderList_Less :: "KVReader list \<Rightarrow> nat \<Rightarrow> nat \<Rightarrow> bool" where
  "ReaderList_Less rl i j = (rd_version (rl ! i) < rd_version (rl ! j))"

definition reader_heap :: "KVReader list \<Rightarrow> bool" where
  "reader_heap rl = (\<forall>i. 0 < i \<and> i < length rl \<longrightarrow> \<not> ReaderList_Less rl i ((i - 1) div 2))"

section \<open>Well-formed nodes and the inputs of the examples\<close>

text \<open>A node whose slots are all written: the decoded form of a finished page.\<close>

definition node_full :: "BNode \<Rightarrow> bool" where
  "node_full node = (length (ents node) = nkeys node \<and> nkeys node < 65536)"

definition leaf3 :: BNode where
  "leaf3 = \<lparr>dlen = 4096, btype = 2, nkeys = 3, ents = [(0, [], []), (0, [98], [1]), (0, [100], [2])]\<rparr>"

definition kv0 :: KV where
  "kv0 = \<lparr>kv_root = 1, kv_free = \<lparr>head = 0, nodes = [], total = 0, offset = 0\<rparr>,
          kv_chunks = [], kv_flushed = 2, kv_version = 7, kv_readers = [], writer_locked = False\<rparr>"

definition tx0 :: KVTX where
  "tx0 = \<lparr>rd_version = 0, rd_root = 0, rd_chunks = [], rd_index = 0, tx_root = 0,
          tx_free = \<lparr>head = 0, nodes = [], total = 0, offset = 0, version = 0, minReader = 0, freed = []\<rparr>,
          tx_nappend = 0, tx_updates = Map.empty\<rparr>"

definition reader :: "u64 \<Rightarrow> int \<Rightarrow> KVReader" where
  "reader v i = \<lparr>rd_version = v, rd_root = 1, rd_chunks = [], rd_index = i\<rparr>"

text \<open>
  The encoded size of a node with the records \<open>es\<close>: header, 8 bytes of pointer and
  2 bytes of offset per record, and the records. \<open>csize\<close> is the same for a node under
  construction, whose pointer and offset lists have the length of the header.
\<close>

definition esize :: "entry list \<Rightarrow> nat" where
  "esize es = 4 + 10 * length es + sum_list (map kvsize es)"

text \<open>The limits on keys and values that \<^verbatim>\<open>checkLimit\<close> enforces.\<close>

definition entry_ok :: "entry \<Rightarrow> bool" where
  "entry_ok e = (length (fst (snd e)) \<le> BTREE_MAX_KEY_SIZE \<and> length (snd (snd e)) \<le> BTREE_MAX_VAL_SIZE)"

definition csize :: "BNode \<Rightarrow> nat" where
  "csize node = 4 + 10 * nkeys node + sum_list (map kvsize (ents node))"

definition entries_ok :: "entry list \<Rightarrow> bool" where
  "entries_ok es = list_all entry_ok es"

text \<open>A piece returned by the splitter: a finished node of the type of the node split, on a buffer of one page and no larger than a page.\<close>

definition piece_ok :: "BNode \<Rightarrow> BNode \<Rightarrow> bool" where
  "piece_ok old p =
     (node_full p \<and> nbytes p = Some (esize (ents p)) \<and> esize (ents p) \<le> BTREE_PAGE_SIZE
      \<and> btype p = btype old \<and> dlen p = BTREE_PAGE_SIZE)"

text \<open>Records of 90 and of 3983 bytes, and two nodes of 8190 and of 8090 bytes.\<close>

definition e90a :: entry where "e90a = (0, [1], replicate 85 0)"

definition e3983b :: entry where "e3983b = (0, 2 # replicate 999 0, replicate 2979 0)"

definition e3983c :: entry where "e3983c = (0, 3 # replicate 999 0, replicate 2979 0)"

definition e90d :: entry where "e90d = (0, [4], replicate 85 0)"

definition node8190 :: BNode where
  "node8190 = \<lparr>dlen = 2 * BTREE_PAGE_SIZE, btype = BNODE_LEAF, nkeys = 4, ents = [e90a, e3983b, e3983c, e90d]\<rparr>"

definition node8090 :: BNode where
  "node8090 = \<lparr>dlen = 2 * BTREE_PAGE_SIZE, btype = BNODE_LEAF, nkeys = 3, ents = [e90a, e3983b, e3983c]\<rparr>"

text \<open>
  The trees of the examples: the empty tree; the trees after inserting \<open>b\<close>, then
  \<open>a\<close> and then \<open>c\<close> with values of 3000 bytes, the last of which has an internal
  node as root; a key of 1001 bytes; and an internal node with a single kid, a leaf
  with a single key.
\<close>

definition empty_tree :: BTree where
  "empty_tree = \<lparr>root = 0, pager = \<lparr>pages = Map.empty, next_ptr = 1\<rparr>\<rparr>"

definition val7 :: bytes where "val7 = replicate 3000 7"
definition val8 :: bytes where "val8 = replicate 3000 8"
definition key1001 :: bytes where "key1001 = replicate 1001 0"

definition tree1 :: BTree where
  "tree1 = \<lparr>root = 1, pager = \<lparr>pages = [1 \<mapsto> \<lparr>dlen = 4096, btype = 2, nkeys = 2, ents = [(0, [], []), (0, [98], [1])]\<rparr>], next_ptr = 2\<rparr>\<rparr>"

definition tree2 :: BTree where
  "tree2 = \<lparr>root = 2, pager = \<lparr>pages = [2 \<mapsto> \<lparr>dlen = 4096, btype = 2, nkeys = 3, ents = [(0, [], []), (0, [97], val7), (0, [98], [1])]\<rparr>], next_ptr = 3\<rparr>\<rparr>"

definition tree3 :: BTree where
  "tree3 = \<lparr>root = 5, pager = \<lparr>pages = [
      3 \<mapsto> \<lparr>dlen = 4096, btype = 2, nkeys = 2, ents = [(0, [], []), (0, [97], val7)]\<rparr>,
      4 \<mapsto> \<lparr>dlen = 4096, btype = 2, nkeys = 2, ents = [(0, [98], [1]), (0, [99], val8)]\<rparr>,
      5 \<mapsto> \<lparr>dlen = 4096, btype = 1, nkeys = 2, ents = [(3, [], []), (4, [98], [])]\<rparr>], next_ptr = 6\<rparr>\<rparr>"

definition leaf_k :: BNode where
  "leaf_k = \<lparr>dlen = 4096, btype = 2, nkeys = 1, ents = [(0, [107], [1])]\<rparr>"

definition parent_k :: BNode where
  "parent_k = \<lparr>dlen = 4096, btype = 1, nkeys = 1, ents = [(2, [107], [])]\<rparr>"

definition pager_k :: Pager where
  "pager_k = \<lparr>pages = [1 \<mapsto> parent_k, 2 \<mapsto> leaf_k], next_ptr = 3\<rparr>"

text \<open>
  The free lists that the package can build. \<^verbatim>\<open>FreeList{}\<close> is the zero value; the
  fields of \<^verbatim>\<open>FreeListData\<close> are not exported and have no setter, so a list changes
  only by \<^verbatim>\<open>Pop\<close>, \<^verbatim>\<open>Add\<close>, \<^verbatim>\<open>SetVersion\<close> and \<^verbatim>\<open>SetMinReader\<close>, and by the
  assignment of the \<^verbatim>\<open>FreeListData\<close> of another list, which \<^verbatim>\<open>Begin\<close> and \<^verbatim>\<open>Commit\<close>
  do through the store.
\<close>

definition FreeList_zero :: FreeList where
  "FreeList_zero = \<lparr>head = 0, nodes = [], total = 0, offset = 0, version = 0, minReader = 0, freed = []\<rparr>"

inductive built :: "FreeList \<Rightarrow> bool" where
  built_zero: "built FreeList_zero"
| built_Pop: "built fl \<Longrightarrow> built (snd (Pop fl))"
| built_Add: "built fl \<Longrightarrow> built (Add fl fr)"
| built_SetVersion: "built fl \<Longrightarrow> built (fl\<lparr>version := v\<rparr>)"
| built_SetMinReader: "built fl \<Longrightarrow> built (fl\<lparr>minReader := r\<rparr>)"
| built_copy: "built fl \<Longrightarrow> built fl' \<Longrightarrow>
     built (fl'\<lparr>head := head fl, nodes := nodes fl, total := total fl, offset := offset fl\<rparr>)"

text \<open>A store whose free list data is that of a list the package can build.\<close>

definition kv_built :: "KV \<Rightarrow> bool" where
  "kv_built kv = (\<exists>fl. built fl \<and> kv_free kv = FreeListData.truncate fl)"

text \<open>
  A leaf of 4048 bytes with the keys \<open>""\<close>, \<open>a\<close> and \<open>c\<close>, and the node of 7063 bytes
  that \<^verbatim>\<open>treeInsert\<close> builds from it for the key \<open>b\<close> with a value of 3000 bytes.
\<close>

definition val5 :: bytes where "val5 = replicate 2000 5"
definition val6 :: bytes where "val6 = replicate 2000 6"

definition leaf_ac :: BNode where
  "leaf_ac = \<lparr>dlen = 4096, btype = 2, nkeys = 3, ents = [(0, [], []), (0, [97], val5), (0, [99], val6)]\<rparr>"

definition leaf_abc :: BNode where
  "leaf_abc = \<lparr>dlen = 8192, btype = 2, nkeys = 4,
                ents = [(0, [], []), (0, [97], val5), (0, [98], val8), (0, [99], val6)]\<rparr>"

definition pager0 :: Pager where
  "pager0 = \<lparr>pages = Map.empty, next_ptr = 1\<rparr>"

text \<open>
  The tree \<open>tree1\<close> after \<^verbatim>\<open>Delete("b")\<close>, and after \<^verbatim>\<open>Delete("")\<close> as well: the root
  is a leaf with no key.
\<close>

definition tree_b_deleted :: BTree where
  "tree_b_deleted = \<lparr>root = 2, pager = \<lparr>pages = [2 \<mapsto> \<lparr>dlen = 4096, btype = 2, nkeys = 1, ents = [(0, [], [])]\<rparr>], next_ptr = 3\<rparr>\<rparr>"

definition tree_emptied :: BTree where
  "tree_emptied = \<lparr>root = 3, pager = \<lparr>pages = [3 \<mapsto> \<lparr>dlen = 4096, btype = 2, nkeys = 0, ents = []\<rparr>], next_ptr = 4\<rparr>\<rparr>"

subsection \<open>The tree invariant and the contents of a tree\<close>

text \<open>The keys of a node, in slot order.\<close>

definition keys :: "BNode \<Rightarrow> bytes list" where
  "keys n = map (fst \<circ> snd) (ents n)"

abbreviation ekey :: "entry \<Rightarrow> bytes" where "ekey e \<equiv> fst (snd e)"

text \<open>
  The slot that \<^verbatim>\<open>nodeLookupLE\<close> returns for \<open>k\<close>: the loop starts at slot 1 and never
  compares the key of slot 0, goes on while the keys are smaller than \<open>k\<close>, and stops at
  the first key that is not.
\<close>

definition le_pos :: "bytes list \<Rightarrow> bytes \<Rightarrow> nat \<Rightarrow> bool" where
  "le_pos ks k i = (i < length ks \<and> (\<forall>j. 1 \<le> j \<and> j < i \<longrightarrow> ks ! j < k) \<and> (1 \<le> i \<longrightarrow> ks ! i \<le> k)
      \<and> (i + 1 < length ks \<longrightarrow> (1 \<le> i \<and> ks ! i = k) \<or> k < ks ! (i + 1)))"

text \<open>
  The keys of a node that covers the keys from \<open>lo\<close> to \<open>hi\<close> (\<open>None\<close>: no bound). There
  is at least one key; the keys after the first are strictly increasing and lie strictly
  between the bounds; with a lower bound the first key is that bound. Without a lower
  bound (the leftmost node of a level) the first key is not constrained: it is the
  dummy empty key that \<^verbatim>\<open>Insert\<close> writes first, or whatever key follows once
  \<^verbatim>\<open>Delete\<close> has removed the dummy key.
\<close>

definition keys_ok :: "bytes list \<Rightarrow> bytes option \<Rightarrow> bytes option \<Rightarrow> bool" where
  "keys_ok ks lo hi =
     (ks \<noteq> [] \<and> sorted_wrt (<) (tl ks)
      \<and> (\<forall>s. lo = Some s \<longrightarrow> hd ks = s \<and> (\<forall>x\<in>set (tl ks). s < x))
      \<and> (\<forall>u. hi = Some u \<longrightarrow> (\<forall>x\<in>set (tl ks). x < u) \<and> (\<forall>s. lo = Some s \<longrightarrow> s < u)))"

text \<open>A node stored in the pager: a buffer of one page, and no larger.\<close>

definition page_ok :: "BNode \<Rightarrow> bool" where
  "page_ok c = (dlen c = BTREE_PAGE_SIZE \<and> esize (ents c) \<le> BTREE_PAGE_SIZE)"

text \<open>
  \<open>chain Q es lo hi\<close>: every record of \<open>es\<close> satisfies \<open>Q\<close> between its own key (the bound
  \<open>lo\<close> for the first record) and the key of the next record (the bound \<open>hi\<close> for the
  last).
\<close>

fun chain :: "(entry \<Rightarrow> bytes option \<Rightarrow> bytes option \<Rightarrow> bool) \<Rightarrow> entry list \<Rightarrow> bytes option \<Rightarrow> bytes option \<Rightarrow> bool" where
  "chain Q [] lo hi = True"
| "chain Q [e] lo hi = Q e lo hi"
| "chain Q (e # e' # es) lo hi = (Q e lo (Some (fst (snd e'))) \<and> chain Q (e' # es) (Some (fst (snd e'))) hi)"

text \<open>The page numbers below a node of height \<open>h\<close> (a leaf has height 0).\<close>

fun nptrs :: "(nat \<rightharpoonup> BNode) \<Rightarrow> nat \<Rightarrow> BNode \<Rightarrow> nat set" where
  "nptrs m 0 n = {}"
| "nptrs m (Suc h) n = (\<Union>e \<in> set (ents n). {fst e} \<union> (case m (fst e) of None \<Rightarrow> {} | Some c \<Rightarrow> nptrs m h c))"

definition subs :: "(nat \<rightharpoonup> BNode) \<Rightarrow> nat \<Rightarrow> entry \<Rightarrow> nat set" where
  "subs m h e = {fst e} \<union> (case m (fst e) of None \<Rightarrow> {} | Some c \<Rightarrow> nptrs m h c)"

fun disj_list :: "'a set list \<Rightarrow> bool" where
  "disj_list [] = True"
| "disj_list (A # As) = ((\<forall>B \<in> set As. A \<inter> B = {}) \<and> disj_list As)"

text \<open>
  The record of a kid in an internal node: the page exists and fits, the key of the
  record is the first key of the kid, the kid is a well-formed node between the
  bounds, and its page is not below itself.
\<close>

definition kid_ok :: "(nat \<rightharpoonup> BNode) \<Rightarrow> nat \<Rightarrow> (BNode \<Rightarrow> bytes option \<Rightarrow> bytes option \<Rightarrow> bool) \<Rightarrow> entry \<Rightarrow> bytes option \<Rightarrow> bytes option \<Rightarrow> bool" where
  "kid_ok m h W e lo hi =
     (case m (fst e) of None \<Rightarrow> False
      | Some c \<Rightarrow> page_ok c \<and> hd (keys c) = fst (snd e) \<and> W c lo hi \<and> fst e \<notin> nptrs m h c)"

text \<open>
  \<open>wfn m h n lo hi\<close>: in the store \<open>m\<close>, the node \<open>n\<close> is the root of a well-formed
  subtree of height \<open>h\<close> for the keys from \<open>lo\<close> to \<open>hi\<close>. All leaves are at the same
  depth, keys and values are within the limits of \<^verbatim>\<open>checkLimit\<close>, the records of an
  internal node have no value, and no page is reached twice.
\<close>

fun wfn :: "(nat \<rightharpoonup> BNode) \<Rightarrow> nat \<Rightarrow> BNode \<Rightarrow> bytes option \<Rightarrow> bytes option \<Rightarrow> bool" where
  "wfn m 0 n lo hi =
     (btype n = BNODE_LEAF \<and> node_full n \<and> entries_ok (ents n) \<and> keys_ok (keys n) lo hi)"
| "wfn m (Suc h) n lo hi =
     (btype n = BNODE_NODE \<and> node_full n \<and> entries_ok (ents n) \<and> keys_ok (keys n) lo hi
      \<and> (\<forall>e \<in> set (ents n). snd (snd e) = [])
      \<and> chain (kid_ok m h (wfn m h)) (ents n) lo hi
      \<and> disj_list (map (subs m h) (ents n)))"

text \<open>
  The records stored in the leaves below a node, from left to right: the key/value
  contents of the subtree (with the dummy record of the first leaf).
\<close>

fun kvs :: "(nat \<rightharpoonup> BNode) \<Rightarrow> nat \<Rightarrow> BNode \<Rightarrow> (bytes \<times> bytes) list" where
  "kvs m 0 n = map snd (ents n)"
| "kvs m (Suc h) n = concat (map (\<lambda>e. case m (fst e) of None \<Rightarrow> [] | Some c \<Rightarrow> kvs m h c) (ents n))"

text \<open>
  \<open>finds m h n k v\<close>: the descent of \<^verbatim>\<open>treeInsert\<close> and \<^verbatim>\<open>Get\<close> for \<open>k\<close>, by
  \<^verbatim>\<open>nodeLookupLE\<close> at every level, ends at a record of a leaf that holds \<open>k\<close> with the
  value \<open>v\<close>.
\<close>

fun finds :: "(nat \<rightharpoonup> BNode) \<Rightarrow> nat \<Rightarrow> BNode \<Rightarrow> bytes \<Rightarrow> bytes \<Rightarrow> bool" where
  "finds m 0 n k v =
     (btype n = BNODE_LEAF \<and> (\<exists>i. le_pos (keys n) k i \<and> snd (ents n ! i) = (k, v)))"
| "finds m (Suc h) n k v =
     (btype n = BNODE_NODE \<and> (\<exists>i c. le_pos (keys n) k i \<and> m (fst (ents n ! i)) = Some c \<and> finds m h c k v))"

text \<open>
  What \<^verbatim>\<open>treeInsert\<close> establishes, from the node \<open>node\<close> in the store \<open>m0\<close> and the
  pager \<open>pg\<close> to the node \<open>new\<close> and the pager \<open>pg'\<close>: the new node is built on a buffer
  of two pages and is well-formed between the same bounds; pages are allocated from
  the counter upwards, and no page outside the subtree changes; the key is found
  with its value; and when it was found with that value before, the contents of the
  subtree and the records of the node are the same.
\<close>

definition ins_post :: "(nat \<rightharpoonup> BNode) \<Rightarrow> nat \<Rightarrow> BNode \<Rightarrow> bytes option \<Rightarrow> bytes option \<Rightarrow> Pager
     \<Rightarrow> bytes \<Rightarrow> bytes \<Rightarrow> BNode \<Rightarrow> Pager \<Rightarrow> bool" where
  "ins_post m0 h node lo hi pg k v new pg' =
     (dlen new = 2 * BTREE_PAGE_SIZE \<and> wfn (pages pg') h new lo hi
      \<and> esize (ents new) \<le> 2 * BTREE_PAGE_SIZE - 3
      \<and> next_ptr pg \<le> next_ptr pg' \<and> (\<forall>q\<ge>next_ptr pg'. pages pg' q = None)
      \<and> (\<forall>q. q < next_ptr pg \<and> q \<notin> nptrs m0 h node \<longrightarrow> pages pg' q = pages pg q)
      \<and> nptrs (pages pg') h new \<subseteq> nptrs m0 h node \<union> {next_ptr pg..<next_ptr pg'}
      \<and> finds (pages pg') h new k v
      \<and> (finds m0 h node k v \<longrightarrow>
            kvs (pages pg') h new = kvs m0 h node \<and> map snd (ents new) = map snd (ents node)))"

text \<open>
  The records that \<^verbatim>\<open>nodeReplaceKidN\<close> writes for the kids, allocated from page \<open>np\<close>
  on, and the store with these pages.
\<close>

fun kid_ents :: "nat \<Rightarrow> BNode list \<Rightarrow> entry list" where
  "kid_ents np [] = []"
| "kid_ents np (p # ps) = (np, hd (keys p), []) # kid_ents (Suc np) ps"

fun add_pages :: "(nat \<rightharpoonup> BNode) \<Rightarrow> nat \<Rightarrow> BNode list \<Rightarrow> (nat \<rightharpoonup> BNode)" where
  "add_pages m np [] = m"
| "add_pages m np (p # ps) = add_pages (m(np \<mapsto> p)) (Suc np) ps"

definition kid_fit :: "BNode \<Rightarrow> bool" where
  "kid_fit p = (node_full p \<and> ents p \<noteq> [] \<and> esize (ents p) \<le> BTREE_PAGE_SIZE \<and> entries_ok (ents p))"

text \<open>
  The height of a node: the number of levels down to a leaf, following the first
  pointer of every internal node.
\<close>

partial_function (option) node_height :: "Pager \<Rightarrow> BNode \<Rightarrow> nat option" where
  "node_height pg node =
     (if btype node = BNODE_LEAF then Some 0
      else if btype node = BNODE_NODE
      then do { ptr \<leftarrow> getPtr node 0;
                c \<leftarrow> pager_get pg ptr;
                h \<leftarrow> node_height pg c;
                Some (Suc h) }
      else None)"

declare node_height.simps [code]

text \<open>
  The key/value contents of a tree: no record for the empty tree (\<^verbatim>\<open>root == 0\<close>),
  and the records of the leaves from left to right otherwise.
\<close>

definition contents :: "BTree \<Rightarrow> (bytes \<times> bytes) list option" where
  "contents tree =
     (if root tree = 0 then Some []
      else do { node \<leftarrow> pager_get (pager tree) (root tree);
                h \<leftarrow> node_height (pager tree) node;
                Some (kvs (pages (pager tree)) h node) })"

definition root_ok :: "Pager \<Rightarrow> nat \<Rightarrow> nat \<Rightarrow> BNode \<Rightarrow> bool" where
  "root_ok pg r h node =
     (pages pg r = Some node \<and> page_ok node \<and> wfn (pages pg) h node None None
      \<and> r \<notin> nptrs (pages pg) h node)"

text \<open>
  The invariant of a tree and its pager. No page is in use from the allocation
  counter on; the empty tree has a counter above 0 (page number 0 stands for no
  page); the root of any other tree is a stored page and a well-formed node for the
  whole key space.
\<close>

definition tree_inv :: "BTree \<Rightarrow> bool" where
  "tree_inv tree =
     ((\<forall>q\<ge>next_ptr (pager tree). pages (pager tree) q = None)
      \<and> (if root tree = 0 then 1 \<le> next_ptr (pager tree)
         else case pages (pager tree) (root tree) of
                None \<Rightarrow> False
              | Some node \<Rightarrow>
                  (case node_height (pager tree) node of
                     None \<Rightarrow> False
                   | Some h \<Rightarrow> root_ok (pager tree) (root tree) h node)))"

section \<open>Properties of nodeLookupLE\<close>

declare lookupLE_loop.simps [simp del]

lemma lookupLE_loop_range:
  assumes "length (ents node) = nkeys node" and "found < i" and "i \<le> nkeys node \<or> found < nkeys node"
  shows "\<exists>r. lookupLE_loop node key i found = Some r \<and> r < max i (nkeys node) \<and> (r < nkeys node \<or> nkeys node \<le> found)"
  using assms
proof (induction node key i found rule: lookupLE_loop.induct)
  case (1 node key i found)
  show ?case
  proof (cases "i < nkeys node")
    case False
    then show ?thesis
      using "1.prems" by (subst lookupLE_loop.simps) auto
  next
    case True
    then obtain k where k: "getKey node i = Some k"
      using "1.prems"(1) by (simp add: getKey_def)
    show ?thesis
    proof (cases "bytes_Compare k key \<ge> 0")
      case True
      then show ?thesis
        using \<open>i < nkeys node\<close> k "1.prems"
        by (subst lookupLE_loop.simps) (auto simp: Let_def)
    next
      case False
      then have neg: "bytes_Compare k key \<le> 0" by simp
      have "\<exists>r. lookupLE_loop node key (i + 1) i = Some r \<and> r < max (i + 1) (nkeys node)
                \<and> (r < nkeys node \<or> nkeys node \<le> i)"
        using "1.IH"[OF True k refl refl False] neg True "1.prems"(1) by simp
      then show ?thesis
        using True k False neg
        by (subst lookupLE_loop.simps) (auto simp: Let_def)
    qed
  qed
qed

lemma lookupLE_loop_first_indep:
  "i \<ge> 1 \<Longrightarrow> ents node \<noteq> [] \<Longrightarrow> lookupLE_loop (node\<lparr>ents := e # tl (ents node)\<rparr>) key i found = lookupLE_loop node key i found"
proof (induction node key i found rule: lookupLE_loop.induct)
  case (1 node key i found)
  have gk: "getKey (node\<lparr>ents := e # tl (ents node)\<rparr>) i = getKey node i"
    using "1.prems" by (cases "ents node") (auto simp: getKey_def nth_Cons split: nat.splits)
  show ?case
  proof (cases "i < nkeys node")
    case False
    then show ?thesis by (simp add: lookupLE_loop.simps)
  next
    case True
    show ?thesis
    proof (cases "getKey node i")
      case None
      then show ?thesis using True gk
        by (subst lookupLE_loop.simps, subst (2) lookupLE_loop.simps) simp
    next
      case (Some k)
      show ?thesis
      proof (cases "bytes_Compare k key \<ge> 0")
        case True
        then show ?thesis using \<open>i < nkeys node\<close> gk Some
          by (subst lookupLE_loop.simps, subst (2) lookupLE_loop.simps) (simp add: Let_def)
      next
        case False
        have "lookupLE_loop (node\<lparr>ents := e # tl (ents node)\<rparr>) key (i + 1) i = lookupLE_loop node key (i + 1) i"
          using "1.IH"[OF True Some refl refl False] "1.prems" False by simp
        then show ?thesis using \<open>i < nkeys node\<close> gk Some False
          by (subst lookupLE_loop.simps, subst (2) lookupLE_loop.simps) (simp add: Let_def)
      qed
    qed
  qed
qed

text \<open>
  Claim C10. For every node with at least one key and every search key,
  \<^verbatim>\<open>nodeLookupLE\<close> returns an index below \<open>nkeys\<close>; it returns 0 when the search
  key is smaller than every key at the positions from 1 on; and the first key is never
  compared: replacing the first record does not change the result.
\<close>

theorem nodeLookupLE_in_range:
  assumes "node_full node" and "1 \<le> nkeys node"
  shows "(\<exists>i. nodeLookupLE node key = Some i \<and> i < nkeys node)
         \<and> ((\<forall>j. 1 \<le> j \<and> j < nkeys node \<longrightarrow> key < fst (snd (ents node ! j)))
                \<longrightarrow> nodeLookupLE node key = Some 0)
         \<and> (\<forall>e. nodeLookupLE (node\<lparr>ents := e # tl (ents node)\<rparr>) key = nodeLookupLE node key)"
proof (intro conjI impI allI)
  have len: "length (ents node) = nkeys node" using assms by (simp add: node_full_def)
  from lookupLE_loop_range[of node 0 1 key] len assms(2)
  show "\<exists>i. nodeLookupLE node key = Some i \<and> i < nkeys node"
    by (auto simp: nodeLookupLE_def)
next
  assume small: "\<forall>j. 1 \<le> j \<and> j < nkeys node \<longrightarrow> key < fst (snd (ents node ! j))"
  have len: "length (ents node) = nkeys node" using assms by (simp add: node_full_def)
  show "nodeLookupLE node key = Some 0"
  proof (cases "1 < nkeys node")
    case False
    then show ?thesis by (simp add: nodeLookupLE_def lookupLE_loop.simps)
  next
    case True
    then have "key < fst (snd (ents node ! 1))" using small by simp
    then have "bytes_Compare (fst (snd (ents node ! 1))) key = 1"
      by (auto simp: bytes_Compare_def)
    then show ?thesis using True len
      by (simp add: nodeLookupLE_def lookupLE_loop.simps getKey_def)
  qed
next
  fix e
  have "ents node \<noteq> []" using assms by (auto simp: node_full_def)
  then show "nodeLookupLE (node\<lparr>ents := e # tl (ents node)\<rparr>) key = nodeLookupLE node key"
    by (simp add: nodeLookupLE_def lookupLE_loop_first_indep)
qed

theorem nodeLookupLE_in_range_witness:
  "node_full leaf3 \<and> 1 \<le> nkeys leaf3
   \<and> nodeLookupLE leaf3 [97] = Some 0 \<and> nodeLookupLE leaf3 [99] = Some 1
   \<and> nodeLookupLE (leaf3\<lparr>ents := (0, [120], []) # tl (ents leaf3)\<rparr>) [99] = Some 1"
proof -
  have h: "node_full leaf3" "1 \<le> nkeys leaf3" by (simp_all add: node_full_def leaf3_def)
  have a: "nodeLookupLE leaf3 [97] = Some 0"
    using nodeLookupLE_in_range[OF h, of "[97]"]
    by (simp add: leaf3_def nth_Cons split: nat.splits) 
  have b: "nodeLookupLE leaf3 [99] = Some 1"
    by (simp add: nodeLookupLE_def lookupLE_loop.simps getKey_def leaf3_def bytes_Compare_def)
  show ?thesis using h a b nodeLookupLE_in_range[OF h, of "[99]"] by simp
qed

section \<open>Properties of the free list and of the transaction layer\<close>



lemma Begin_built:
  assumes "kv_built kv" "built (tx_free tx)" "Begin kv tx = Some (kv', tx')"
  shows "kv_built kv' \<and> built (tx_free tx')"
proof -
  obtain fl where fl: "built fl" "kv_free kv = FreeListData.truncate fl"
    using assms(1) by (auto simp: kv_built_def)
  let ?c = "(tx_free tx)\<lparr>head := head fl, nodes := nodes fl, total := total fl, offset := offset fl\<rparr>"
  have c: "built ?c" using built_copy[OF fl(1) assms(2)] .
  have d: "head (kv_free kv) = head fl" "nodes (kv_free kv) = nodes fl"
    "total (kv_free kv) = total fl" "offset (kv_free kv) = offset fl"
    using fl(2) by (simp_all add: FreeListData.truncate_def)
  have "built (?c\<lparr>version := a, minReader := b\<rparr>)" for a b
    using built_SetMinReader[OF built_SetVersion[OF c]] by simp
  then show ?thesis using assms(1,3) d
    by (auto simp: Begin_def Let_def kv_built_def split: if_splits)
qed

lemma Commit_built:
  assumes "kv_built kv" "built (tx_free tx)" "Commit s1 s2 kv tx = Some (e, kv', io)"
  shows "kv_built kv'"
  using assms by (auto simp: Commit_def Let_def kv_built_def rollbackTX_def split: if_splits)



lemma Pop_result: "fst (Pop fl) = (if total fl = 0 then 0 else head fl)"
  by (simp add: Pop_def)

text \<open>
  Claim C8. A \<^verbatim>\<open>Commit\<close> that finds the root of the store equal to the root of
  the transaction returns \<^verbatim>\<open>nil\<close>, calls neither \<^verbatim>\<open>FlushPages\<close> nor
  \<^verbatim>\<open>Sync\<close> nor \<^verbatim>\<open>StoreMaster\<close>, and changes no field of the store but the
  writer mutex, which it releases.
\<close>

theorem Commit_unchanged_root:
  assumes "writer_locked kv" and "tx_root tx = kv_root kv"
  shows "Commit sync1_ok sync2_ok kv tx = Some (None, kv\<lparr>writer_locked := False\<rparr>, [])"
  using assms by (simp add: Commit_def)

theorem Commit_unchanged_root_witness:
  "map_option fst (Begin kv0 tx0) = Some (kv0\<lparr>writer_locked := True\<rparr>)
   \<and> map_option (tx_root \<circ> snd) (Begin kv0 tx0) = Some (kv_root kv0)
   \<and> Commit True True (kv0\<lparr>writer_locked := True\<rparr>) (snd (the (Begin kv0 tx0))) = Some (None, kv0, [])"
proof -
  let ?kv = "kv0\<lparr>writer_locked := True\<rparr>"
  let ?tx = "snd (the (Begin kv0 tx0))"
  have b: "map_option fst (Begin kv0 tx0) = Some ?kv"
    and r: "map_option (tx_root \<circ> snd) (Begin kv0 tx0) = Some (kv_root kv0)"
    by (simp_all add: Begin_def kv0_def Let_def)
  have h: "writer_locked ?kv" "tx_root ?tx = kv_root ?kv"
    by (simp_all add: Begin_def kv0_def Let_def)
  have "?kv\<lparr>writer_locked := False\<rparr> = kv0" by (simp add: kv0_def)
  then show ?thesis using Commit_unchanged_root[OF h, of True True] b r by simp
qed


lemma Commit_version:
  "Commit s1 s2 kv tx = Some (err, kv', calls) \<Longrightarrow> kv_version kv' = kv_version kv"
  by (auto simp: Commit_def rollbackTX_def Let_def split: if_splits)

lemma heap_root_le:
  assumes "reader_heap rl" and "i < length rl"
  shows "rd_version (rl ! 0) \<le> rd_version (rl ! i)"
  using assms(2)
proof (induction i rule: less_induct)
  case (less i)
  show ?case
  proof (cases "i = 0")
    case True
    then show ?thesis by simp
  next
    case False
    then have p: "(i - 1) div 2 < i" by simp
    have "rd_version (rl ! ((i - 1) div 2)) \<le> rd_version (rl ! i)"
      using assms(1) False less.prems by (auto simp: reader_heap_def ReaderList_Less_def)
    moreover have "rd_version (rl ! 0) \<le> rd_version (rl ! ((i - 1) div 2))"
      using less.IH[OF p] less.prems p by simp
    ultimately show ?thesis by simp
  qed
qed

text \<open>
  Claim C7, as amended. \<^verbatim>\<open>Begin\<close> captures as minimum reader version the version
  of the first reader of the list, which is the minimum over all registered readers
  as the list is a min-heap, when a reader is registered, and the current version
  (not the version plus 1) when none is.
\<close>

theorem Begin_minReader:
  assumes "\<not> writer_locked kv" and "reader_heap (kv_readers kv)"
  shows "map_option (minReader \<circ> tx_free \<circ> snd) (Begin kv tx)
         = Some (if kv_readers kv = [] then kv_version kv
                 else Min (rd_version ` set (kv_readers kv)))"
proof -
  let ?rl = "kv_readers kv"
  have m: "?rl \<noteq> [] \<Longrightarrow> rd_version (?rl ! 0) = Min (rd_version ` set ?rl)"
  proof -
    assume ne: "?rl \<noteq> []"
    have "\<forall>r \<in> set ?rl. rd_version (?rl ! 0) \<le> rd_version r"
      using heap_root_le[OF assms(2)] by (auto simp: in_set_conv_nth)
    moreover have "rd_version (?rl ! 0) \<in> rd_version ` set ?rl" using ne by simp
    ultimately show ?thesis by (intro Min_eqI[symmetric]) auto
  qed
  show ?thesis using assms(1) m by (auto simp: Begin_def Let_def)
qed

theorem Begin_minReader_witness:
  "\<not> writer_locked (kv0\<lparr>kv_readers := [reader 3 0, reader 5 1, reader 4 2]\<rparr>)
   \<and> reader_heap [reader 3 0, reader 5 1, reader 4 2]
   \<and> map_option (minReader \<circ> tx_free \<circ> snd)
         (Begin (kv0\<lparr>kv_readers := [reader 3 0, reader 5 1, reader 4 2]\<rparr>) tx0) = Some 3"
proof -
  let ?kv = "kv0\<lparr>kv_readers := [reader 3 0, reader 5 1, reader 4 2]\<rparr>"
  have h1: "\<not> writer_locked ?kv" by (simp add: kv0_def)
  have h2: "reader_heap (kv_readers ?kv)"
    by (auto simp: reader_heap_def ReaderList_Less_def reader_def less_Suc_eq numeral_3_eq_3)
  have "Min (rd_version ` set [reader 3 0, reader 5 1, reader 4 2]) = 3"
    by (simp add: reader_def)
  then show ?thesis using Begin_minReader[OF h1 h2, of tx0] h1 h2 by simp
qed

text \<open>
  Claim C7 as stated fails with an empty reader list: the captured minimum reader
  version is the version 7 of the store, not 8.
\<close>

theorem Begin_minReader_not_next_version:
  "kv_readers kv0 = [] \<and> \<not> writer_locked kv0
   \<and> map_option (minReader \<circ> tx_free \<circ> snd) (Begin kv0 tx0) = Some 7
   \<and> kv_version kv0 + 1 = 8"
  by (simp add: Begin_def kv0_def Let_def tx0_def)

section \<open>Properties of the splitter\<close>

lemma u16_id [simp]: "n < 65536 \<Longrightarrow> u16 n = n"
  by (simp add: u16_def)

lemma sub16_id [simp]: "b \<le> a \<Longrightarrow> a < 65536 \<Longrightarrow> sub16 a b = a - b"
proof -
  assume h: "b \<le> a" "a < 65536"
  have b: "b mod 65536 = b" using h by simp
  have e: "a + 65536 - b = 65536 + (a - b)" using h by simp
  have "(65536 + (a - b)) mod 65536 = (a - b) mod 65536" by (rule mod_add_self1)
  also have "\<dots> = a - b" using h by simp
  finally show ?thesis unfolding sub16_def b e .
qed

lemma offs_le: "offs es i \<le> sum_list (map kvsize es)"
proof -
  have "sum_list (map kvsize es) = sum_list (map kvsize (take i es)) + sum_list (map kvsize (drop i es))"
    by (metis append_take_drop_id map_append sum_list_append)
  then show ?thesis by (simp add: offs_def)
qed

lemma esize_take: "m \<le> length es \<Longrightarrow> esize (take m es) = 4 + 10 * m + offs es m"
  by (simp add: esize_def offs_def min_def)

lemma esize_split: "esize (take m es) + esize (drop m es) = esize es + 4"
proof -
  have "sum_list (map kvsize es) = sum_list (map kvsize (take m es)) + sum_list (map kvsize (drop m es))"
    by (metis append_take_drop_id map_append sum_list_append)
  moreover have "length es = length (take m es) + length (drop m es)" by simp
  ultimately show ?thesis unfolding esize_def by linarith
qed

lemma esize_take_mono: "i \<le> j \<Longrightarrow> esize (take i es) \<le> esize (take j es)"
proof -
  assume ij: "i \<le> j"
  have "take i es = take i (take j es)" using ij by (simp add: min_def)
  then have "esize (take i es) + esize (drop i (take j es)) = esize (take j es) + 4"
    using esize_split[of i "take j es"] by simp
  moreover have "4 \<le> esize (drop i (take j es))" by (simp add: esize_def)
  ultimately show ?thesis by linarith
qed

lemma esize_take_le: "esize (take i es) \<le> esize es"
  using esize_split[of i es] by (simp add: esize_def)

lemma esize_drop_le: "esize (drop i es) \<le> esize es"
  using esize_split[of i es] by (simp add: esize_def)

lemma esize_ge4: "4 \<le> esize es" by (simp add: esize_def)

text \<open>Accessors of a full node that is smaller than 64K.\<close>

lemma getOffset_full:
  assumes "length (ents node) = nkeys node" "i \<le> nkeys node" "esize (ents node) < 65536"
  shows "getOffset node i = Some (offs (ents node) i)"
proof -
  have "offs (ents node) i \<le> esize (ents node)"
    using offs_le[of "ents node" i] by (simp add: esize_def)
  then show ?thesis using assms by (simp add: getOffset_def offs_def)
qed

lemma kvPos_full:
  assumes "length (ents node) = nkeys node" "i \<le> nkeys node" "esize (ents node) < 65536"
  shows "kvPos node i = Some (4 + 10 * nkeys node + offs (ents node) i)"
proof -
  have "offs (ents node) i \<le> sum_list (map kvsize (ents node))" by (rule offs_le)
  then have "4 + 10 * nkeys node + offs (ents node) i < 65536"
    using assms by (simp add: esize_def)
  then show ?thesis using assms by (simp add: kvPos_def getOffset_full HEADER_def)
qed

lemma nbytes_full:
  assumes "length (ents node) = nkeys node" "esize (ents node) < 65536"
  shows "nbytes node = Some (esize (ents node))"
  using kvPos_full[OF assms(1) _ assms(2), of "nkeys node"] assms(1)
  by (simp add: nbytes_def esize_def offs_def)

lemma left_bytes_full:
  assumes "length (ents node) = nkeys node" "m \<le> nkeys node" "esize (ents node) < 65536"
  shows "left_bytes node m = Some (esize (take m (ents node)))"
proof -
  have "esize (take m (ents node)) \<le> esize (ents node)" by (rule esize_take_le)
  then show ?thesis using assms
    by (simp add: left_bytes_def getOffset_full esize_take)
qed

lemma right_bytes_full:
  assumes "length (ents node) = nkeys node" "m \<le> nkeys node" "esize (ents node) + 4 < 65536"
  shows "right_bytes node m = Some (esize (drop m (ents node)))"
proof -
  have a: "esize (take m (ents node)) \<le> esize (ents node)" by (rule esize_take_le)
  have b: "esize (ents node) - esize (take m (ents node)) + 4 = esize (drop m (ents node))"
    using esize_split[of m "ents node"] a by linarith
  have c: "esize (drop m (ents node)) \<le> esize (ents node)" by (rule esize_drop_le)
  show ?thesis using assms a b c
    by (simp add: right_bytes_def nbytes_full left_bytes_full)
qed

lemma split_shrink_full:
  assumes "length (ents node) = nkeys node" "m0 \<le> nkeys node" "esize (ents node) < 65536"
  shows "\<exists>m1. split_shrink node m0 = Some m1 \<and> m1 \<le> m0
            \<and> esize (take m1 (ents node)) \<le> BTREE_PAGE_SIZE
            \<and> (m1 < m0 \<longrightarrow> esize (take (m1 + 1) (ents node)) > BTREE_PAGE_SIZE)"
  using assms(2)
proof (induction m0)
  case 0
  then show ?case
    using left_bytes_full[OF assms(1) _ assms(3), of 0]
    by (subst split_shrink.simps) (simp add: esize_def BTREE_PAGE_SIZE_def)
next
  case (Suc m)
  have lb: "left_bytes node (Suc m) = Some (esize (take (Suc m) (ents node)))"
    using left_bytes_full[OF assms(1) _ assms(3)] Suc.prems by simp
  show ?case
  proof (cases "esize (take (Suc m) (ents node)) > BTREE_PAGE_SIZE")
    case False
    then show ?thesis using lb by (subst split_shrink.simps) simp
  next
    case True
    from Suc.IH Suc.prems obtain m1 where
      m1: "split_shrink node m = Some m1" "m1 \<le> m" "esize (take m1 (ents node)) \<le> BTREE_PAGE_SIZE"
          "m1 < m \<longrightarrow> esize (take (m1 + 1) (ents node)) > BTREE_PAGE_SIZE"
      by auto
    have "split_shrink node (Suc m) = Some m1"
      using lb True m1(1) by (subst split_shrink.simps) simp
    moreover have "esize (take (m1 + 1) (ents node)) > BTREE_PAGE_SIZE"
      using m1(2,4) True by (cases "m1 = m") auto
    ultimately show ?thesis using m1 by auto
  qed
qed

lemma split_grow_full:
  assumes "length (ents node) = nkeys node" "m1 \<le> nkeys node" "esize (ents node) + 4 < 65536"
  shows "\<exists>m2. split_grow node m1 = Some m2 \<and> m1 \<le> m2 \<and> m2 \<le> nkeys node
            \<and> esize (drop m2 (ents node)) \<le> BTREE_PAGE_SIZE
            \<and> (m1 < m2 \<longrightarrow> esize (drop (m2 - 1) (ents node)) > BTREE_PAGE_SIZE)"
  using assms(2)
proof (induction "nkeys node - m1" arbitrary: m1)
  case 0
  then have "m1 = nkeys node" by simp
  then have "drop m1 (ents node) = []" using assms(1) by simp
  then show ?case
    using right_bytes_full[OF assms(1) "0.prems" assms(3)] "0.prems"
    by (subst split_grow.simps) (simp add: esize_def BTREE_PAGE_SIZE_def)
next
  case (Suc d)
  have rb: "right_bytes node m1 = Some (esize (drop m1 (ents node)))"
    using right_bytes_full[OF assms(1) Suc.prems assms(3)] .
  show ?case
  proof (cases "esize (drop m1 (ents node)) > BTREE_PAGE_SIZE")
    case False
    then show ?thesis using rb Suc.prems by (subst split_grow.simps) simp
  next
    case True
    have lt: "m1 < nkeys node" using Suc.hyps(2) by simp
    have "d = nkeys node - (m1 + 1)" using Suc.hyps(2) by simp
    from Suc.hyps(1)[OF this] lt obtain m2 where
      m2: "split_grow node (m1 + 1) = Some m2" "m1 + 1 \<le> m2" "m2 \<le> nkeys node"
          "esize (drop m2 (ents node)) \<le> BTREE_PAGE_SIZE"
          "m1 + 1 < m2 \<longrightarrow> esize (drop (m2 - 1) (ents node)) > BTREE_PAGE_SIZE"
      by auto
    have "split_grow node m1 = Some m2"
      using rb True m2(1) by (subst split_grow.simps) simp
    moreover have "esize (drop (m2 - 1) (ents node)) > BTREE_PAGE_SIZE"
      using m2(2,5) True by (cases "m1 + 1 = m2") auto
    ultimately show ?thesis using m2 by auto
  qed
qed

lemma kvPos_build:
  assumes "length (ents node) \<le> nkeys node" "csize node < 65536"
  shows "kvPos node (length (ents node)) = Some (csize node)"
proof -
  have "getOffset node (length (ents node)) = Some (sum_list (map kvsize (ents node)))"
    using assms by (cases "ents node") (auto simp: getOffset_def offs_def csize_def)
  then show ?thesis using assms by (simp add: kvPos_def HEADER_def csize_def)
qed

lemma nodeAppendKV_build:
  assumes "length (ents node) < nkeys node" "idx = length (ents node)"
    and "csize node + kvsize (ptr, key, val) \<le> dlen node" "dlen node < 65536"
  shows "nodeAppendKV node idx ptr key val = Some (node\<lparr>ents := ents node @ [(ptr, key, val)]\<rparr>)"
proof -
  have "kvPos node (length (ents node)) = Some (csize node)"
    using assms by (intro kvPos_build) auto
  then show ?thesis using assms by (simp add: nodeAppendKV_def kvsize_def)
qed

lemma sum_kvsize_range:
  "src + n \<le> length es \<Longrightarrow>
   offs es (src + n) = offs es src + sum_list (map kvsize (take n (drop src es)))"
proof -
  assume "src + n \<le> length es"
  have "take (src + n) es = take src es @ take n (drop src es)"
    by (simp add: take_add)
  then show ?thesis by (simp add: offs_def)
qed

lemma nodeAppendRange_build:
  assumes old: "length (ents old) = nkeys old" "esize (ents old) < 65536"
    and src: "src + n \<le> nkeys old"
    and new: "dst = length (ents new)" "dst + n \<le> nkeys new"
    and fit: "csize new + sum_list (map kvsize (take n (drop src (ents old)))) \<le> dlen new"
             "dlen new < 65536"
  shows "nodeAppendRange new old dst src n = Some (new\<lparr>ents := ents new @ take n (drop src (ents old))\<rparr>)"
proof (cases "n = 0")
  case True
  have n16: "nkeys old < 65536" using old by (simp add: esize_def)
  have c16: "csize new < 65536" using fit by simp
  then have k16: "nkeys new < 65536" by (simp add: csize_def)
  show ?thesis using True src new n16 k16 by (simp add: nodeAppendRange_def)
next
  case False
  have n16: "nkeys old < 65536" using old by (simp add: esize_def)
  have c16: "csize new < 65536" using fit by simp
  then have k16: "nkeys new < 65536" by (simp add: csize_def)
  have p: "kvPos new dst = Some (csize new)"
    using new c16 by (simp add: kvPos_build)
  have b: "kvPos old src = Some (4 + 10 * nkeys old + offs (ents old) src)"
    using kvPos_full[OF old(1) _ old(2), of src] src by simp
  have e: "kvPos old (src + n) = Some (4 + 10 * nkeys old + offs (ents old) (src + n))"
    using kvPos_full[OF old(1) _ old(2), of "src + n"] src by simp
  have r: "offs (ents old) (src + n) = offs (ents old) src + sum_list (map kvsize (take n (drop src (ents old))))"
    using sum_kvsize_range[of src n "ents old"] src old(1) by simp
  show ?thesis
    using False p b e r src new fit old(1) n16 k16
    by (simp add: nodeAppendRange_def)
qed

lemma entry_ok_kvsize: "entry_ok e \<Longrightarrow> kvsize e \<le> 4004"
  by (simp add: entry_ok_def kvsize_def BTREE_MAX_KEY_SIZE_def BTREE_MAX_VAL_SIZE_def)

lemma esize_single: "entry_ok e \<Longrightarrow> esize [e] \<le> 4018"
  using entry_ok_kvsize[of e] by (simp add: esize_def)

lemma esize_take1: "entries_ok es \<Longrightarrow> esize (take 1 es) \<le> 4018"
proof (cases es)
  case Nil
  then show ?thesis by (simp add: esize_def)
next
  case (Cons e es')
  assume "entries_ok es"
  then have "entry_ok e" using Cons by (simp add: entries_ok_def)
  then show ?thesis using Cons esize_single[of e] by simp
qed

lemma esize_drop_last: "entries_ok es \<Longrightarrow> esize (drop (length es - 1) es) \<le> 4018"
proof (cases "es = []")
  case True
  then show ?thesis by (simp add: esize_def)
next
  case False
  assume ok: "entries_ok es"
  have "drop (length es - 1) es = [last es]"
    using False by (metis append_butlast_last_id append_eq_conv_conj length_butlast)
  moreover have "entry_ok (last es)"
    using ok False by (simp add: entries_ok_def list_all_iff)
  ultimately show ?thesis by (simp add: esize_single)
qed

lemma nodeSplit2_full:
  assumes full: "length (ents old) = nkeys old"
    and n2: "2 \<le> nkeys old"
    and ok: "entries_ok (ents old)"
    and small: "esize (ents old) + 4 < 65536"
    and DL: "DL < 65536"
  shows "\<exists>m. 1 \<le> m \<and> m < nkeys old
           \<and> esize (drop m (ents old)) \<le> BTREE_PAGE_SIZE
           \<and> (esize (take m (ents old)) \<le> BTREE_PAGE_SIZE \<or> BTREE_PAGE_SIZE < esize (drop (m - 1) (ents old)))
           \<and> (esize (take m (ents old)) \<le> DL \<longrightarrow>
                nodeSplit2 (make_node DL) (make_node BTREE_PAGE_SIZE) old
                  = Some (\<lparr>dlen = DL, btype = btype old, nkeys = m, ents = take m (ents old)\<rparr>,
                          \<lparr>dlen = BTREE_PAGE_SIZE, btype = btype old, nkeys = nkeys old - m,
                             ents = drop m (ents old)\<rparr>))"
proof -
  let ?es = "ents old" and ?n = "nkeys old" and ?P = BTREE_PAGE_SIZE
  have small': "esize ?es < 65536" using small by simp
  have n16: "?n < 65536" using small by (simp add: esize_def full)
  obtain m1 where m1: "split_shrink old (?n div 2) = Some m1" "m1 \<le> ?n div 2"
      "esize (take m1 ?es) \<le> ?P" "m1 < ?n div 2 \<longrightarrow> esize (take (m1 + 1) ?es) > ?P"
    using split_shrink_full[OF full _ small', of "?n div 2"] by auto
  have m1pos: "1 \<le> m1"
  proof (rule ccontr)
    assume "\<not> 1 \<le> m1"
    then have "m1 = 0" by simp
    then have "esize (take 1 ?es) > ?P" using m1(4) n2 by simp
    then show False using esize_take1[OF ok] by (simp add: BTREE_PAGE_SIZE_def)
  qed
  have m1n: "m1 \<le> ?n" using m1(2) by simp
  obtain m where m: "split_grow old m1 = Some m" "m1 \<le> m" "m \<le> ?n"
      "esize (drop m ?es) \<le> ?P" "m1 < m \<longrightarrow> esize (drop (m - 1) ?es) > ?P"
    using split_grow_full[OF full m1n small] by auto
  have mlt: "m < ?n"
  proof (rule ccontr)
    assume "\<not> m < ?n"
    then have "m = ?n" using m(3) by simp
    moreover have "m1 < ?n" using m1(2) n2 by simp
    ultimately have "esize (drop (?n - 1) ?es) > ?P" using m(5) by simp
    then show False using esize_drop_last[OF ok] full by (simp add: BTREE_PAGE_SIZE_def)
  qed
  have fits: "esize (take m ?es) \<le> ?P \<or> ?P < esize (drop (m - 1) ?es)"
    using m(2,5) m1(3) by (cases "m1 = m") auto
  have build: "nodeSplit2 (make_node DL) (make_node ?P) old
                  = Some (\<lparr>dlen = DL, btype = btype old, nkeys = m, ents = take m ?es\<rparr>,
                          \<lparr>dlen = ?P, btype = btype old, nkeys = ?n - m, ents = drop m ?es\<rparr>)"
    if cap: "esize (take m ?es) \<le> DL"
  proof -
    have l: "nodeAppendRange (setHeader (make_node DL) (btype old) m) old 0 0 m
             = Some \<lparr>dlen = DL, btype = btype old, nkeys = m, ents = take m ?es\<rparr>"
      using nodeAppendRange_build[OF full small', where src = 0 and n = m and dst = 0
          and new = "setHeader (make_node DL) (btype old) m"]
        mlt cap DL
      by (simp add: setHeader_def make_node_def csize_def esize_def full min_def)
    have r: "nodeAppendRange (setHeader (make_node ?P) (btype old) (?n - m)) old 0 m (?n - m)
             = Some \<lparr>dlen = ?P, btype = btype old, nkeys = ?n - m, ents = drop m ?es\<rparr>"
      using nodeAppendRange_build[OF full small', where src = m and n = "?n - m" and dst = 0
          and new = "setHeader (make_node ?P) (btype old) (?n - m)"]
        mlt m(4) full
      by (simp add: setHeader_def make_node_def csize_def esize_def BTREE_PAGE_SIZE_def)
    have rb: "nbytes \<lparr>dlen = ?P, btype = btype old, nkeys = ?n - m, ents = drop m ?es\<rparr>
              = Some (esize (drop m ?es))"
      using nbytes_full[of "\<lparr>dlen = ?P, btype = btype old, nkeys = ?n - m, ents = drop m ?es\<rparr>"]
        m(4) full by (simp add: BTREE_PAGE_SIZE_def)
    show ?thesis
      using n2 m1(1) m1pos m(1) mlt n16 l r rb m(4)
      by (simp add: nodeSplit2_def Let_def)
  qed
  show ?thesis
    using m1pos m(2) mlt m(4) fits build by (intro exI[of _ m]) auto
qed

lemma nbytes_dlen [simp]: "nbytes (node\<lparr>dlen := d\<rparr>) = nbytes node"
  by (simp add: nbytes_def kvPos_def getOffset_def)

lemma esize_small_nkeys:
  assumes "entries_ok es" "4018 < esize es"
  shows "2 \<le> length es"
proof (rule ccontr)
  assume "\<not> 2 \<le> length es"
  then have "take 1 es = es" by simp
  then show False using esize_take1[OF assms(1)] assms(2) by simp
qed

lemma entries_ok_take: "entries_ok es \<Longrightarrow> entries_ok (take m es)"
  by (auto simp: entries_ok_def list_all_iff dest: in_set_takeD)

lemma entries_ok_drop: "entries_ok es \<Longrightarrow> entries_ok (drop m es)"
  by (auto simp: entries_ok_def list_all_iff dest: in_set_dropD)

text \<open>
  The pieces of \<^verbatim>\<open>nodeSplit3\<close>: for a finished node within the limits whose encoded
  size is at most \<open>2P - 3\<close>, between 1 and 3 nodes of at most one page each, holding
  the records of the node in order; none is empty when the node is not, and a node
  that fits a page comes back alone.
\<close>

lemma nodeSplit3_pieces:
  assumes full: "node_full old"
    and ok: "entries_ok (ents old)"
    and size: "esize (ents old) \<le> 2 * BTREE_PAGE_SIZE - 3"
    and buf: "BTREE_PAGE_SIZE \<le> dlen old"
  shows "\<exists>pieces. nodeSplit3 old = Some pieces \<and> 1 \<le> length pieces \<and> length pieces \<le> 3
           \<and> list_all (piece_ok old) pieces
           \<and> concat (map ents pieces) = ents old
           \<and> (1 \<le> nkeys old \<longrightarrow> (\<forall>p\<in>set pieces. ents p \<noteq> []))
           \<and> (esize (ents old) \<le> BTREE_PAGE_SIZE \<longrightarrow> pieces = [old\<lparr>dlen := BTREE_PAGE_SIZE\<rparr>])"
proof -
  let ?es = "ents old" and ?n = "nkeys old" and ?P = BTREE_PAGE_SIZE
  have len: "length ?es = ?n" and n16: "?n < 65536" using full by (simp_all add: node_full_def)
  have P: "?P = 4096" by (simp add: BTREE_PAGE_SIZE_def)
  have small: "esize ?es + 4 < 65536" using size P by simp
  have nb: "nbytes old = Some (esize ?es)" using nbytes_full[OF len] small by simp
  show ?thesis
  proof (cases "esize ?es \<le> ?P")
    case True
    have "nodeSplit3 old = Some [old\<lparr>dlen := ?P\<rparr>]"
      using nb True buf by (simp add: nodeSplit3_def reslice_def)
    moreover have "piece_ok old (old\<lparr>dlen := ?P\<rparr>)"
      using full True nb by (simp add: piece_ok_def node_full_def)
    moreover have "1 \<le> nkeys old \<Longrightarrow> ents old \<noteq> []" using len by auto
    ultimately show ?thesis by simp
  next
    case False
    then have n2: "2 \<le> ?n" using esize_small_nkeys[OF ok] len P by simp
    obtain m where m: "1 \<le> m" "m < ?n" "esize (drop m ?es) \<le> ?P"
        "esize (take m ?es) \<le> ?P \<or> ?P < esize (drop (m - 1) ?es)"
        "esize (take m ?es) \<le> 2 * ?P \<longrightarrow>
           nodeSplit2 (make_node (2 * ?P)) (make_node ?P) old
             = Some (\<lparr>dlen = 2 * ?P, btype = btype old, nkeys = m, ents = take m ?es\<rparr>,
                     \<lparr>dlen = ?P, btype = btype old, nkeys = ?n - m, ents = drop m ?es\<rparr>)"
      using nodeSplit2_full[OF len n2 ok small, of "2 * ?P"] P by auto
    let ?L = "\<lparr>dlen = 2 * ?P, btype = btype old, nkeys = m, ents = take m ?es\<rparr>"
    let ?R = "\<lparr>dlen = ?P, btype = btype old, nkeys = ?n - m, ents = drop m ?es\<rparr>"
    have tl: "esize (take m ?es) \<le> esize ?es" by (rule esize_take_le)
    then have s2: "nodeSplit2 (make_node (2 * ?P)) (make_node ?P) old = Some (?L, ?R)"
      using m(5) size by simp
    have lenL: "length (ents ?L) = nkeys ?L" using m(2) len by simp
    have nbL: "nbytes ?L = Some (esize (take m ?es))"
      using nbytes_full[OF lenL] tl small by simp
    have lenR: "length (ents ?R) = nkeys ?R" using len by simp
    have nbR: "nbytes ?R = Some (esize (drop m ?es))"
      using nbytes_full[OF lenR] m(3) P by simp
    have okR: "piece_ok old ?R"
      using nbR m(3) lenR n16 by (simp add: piece_ok_def node_full_def)
    show ?thesis
    proof (cases "esize (take m ?es) \<le> ?P")
      case True
      have "nodeSplit3 old = Some [?L\<lparr>dlen := ?P\<rparr>, ?R]"
        using nb False s2 nbL True by (simp add: nodeSplit3_def reslice_def)
      moreover have "nbytes (?L\<lparr>dlen := ?P\<rparr>) = Some (esize (take m ?es))"
        using nbL by (simp only: nbytes_dlen)
      then have "piece_ok old (?L\<lparr>dlen := ?P\<rparr>)"
        using True lenL n16 m(2) by (simp add: piece_ok_def node_full_def)
      moreover have "take m ?es \<noteq> []" "drop m ?es \<noteq> []" using m(1,2) len by auto
      ultimately show ?thesis using okR False by simp
    next
      case big: False
      then have gr: "?P < esize (drop (m - 1) ?es)" using m(4) by simp
      have "esize (take (m - 1) ?es) + esize (drop (m - 1) ?es) = esize ?es + 4"
        by (rule esize_split)
      then have prev: "esize (take (m - 1) ?es) \<le> ?P" using gr size P by simp
      have okL: "entries_ok (ents ?L)" using ok by (simp add: entries_ok_take)
      have m2: "2 \<le> nkeys ?L"
        using esize_small_nkeys[OF okL] big P m(2) len by simp
      have smallL: "esize (ents ?L) + 4 < 65536" using tl small by simp
      obtain k where k: "1 \<le> k" "k < m" "esize (drop k (take m ?es)) \<le> ?P"
          "esize (take k (take m ?es)) \<le> ?P \<longrightarrow>
             nodeSplit2 (make_node ?P) (make_node ?P) ?L
               = Some (\<lparr>dlen = ?P, btype = btype old, nkeys = k, ents = take k (take m ?es)\<rparr>,
                       \<lparr>dlen = ?P, btype = btype old, nkeys = m - k, ents = drop k (take m ?es)\<rparr>)"
        using nodeSplit2_full[OF lenL m2 okL smallL, of ?P] P by auto
      have tk: "take k (take m ?es) = take k ?es" using k(2) by (simp add: min_def)
      have "esize (take k ?es) \<le> esize (take (m - 1) ?es)"
        using k(2) by (intro esize_take_mono) simp
      then have fitLL: "esize (take k ?es) \<le> ?P" using prev by simp
      let ?LL = "\<lparr>dlen = ?P, btype = btype old, nkeys = k, ents = take k ?es\<rparr>"
      let ?M = "\<lparr>dlen = ?P, btype = btype old, nkeys = m - k, ents = drop k (take m ?es)\<rparr>"
      have s3: "nodeSplit2 (make_node ?P) (make_node ?P) ?L = Some (?LL, ?M)"
        using k(4) fitLL tk by simp
      have lenLL: "length (ents ?LL) = nkeys ?LL" using k(2) m(2) len by simp
      have nbLL: "nbytes ?LL = Some (esize (take k ?es))"
        using nbytes_full[OF lenLL] fitLL P by simp
      have lenM: "length (ents ?M) = nkeys ?M" using m(2) len by simp
      have nbM: "nbytes ?M = Some (esize (drop k (take m ?es)))"
        using nbytes_full[OF lenM] k(3) P by simp
      have "nodeSplit3 old = Some [?LL, ?M, ?R]"
        using nb False s2 nbL big s3 nbLL fitLL by (simp add: nodeSplit3_def)
      moreover have "piece_ok old ?LL"
        using nbLL fitLL lenLL n16 k(2) m(2) by (simp add: piece_ok_def node_full_def)
      moreover have "piece_ok old ?M"
        using nbM k(3) lenM n16 m(2) by (simp add: piece_ok_def node_full_def)
      moreover have "take k ?es @ drop k (take m ?es) @ drop m ?es = ?es"
        by (metis append_assoc append_take_drop_id tk)
      moreover have "take k ?es \<noteq> []" "drop k (take m ?es) \<noteq> []" "drop m ?es \<noteq> []"
        using k(1,2) m(1,2) len by auto
      ultimately show ?thesis using okR False by simp
    qed
  qed
qed

lemma kvsize_examples [simp]:
  "kvsize e90a = 90" "kvsize e3983b = 3983" "kvsize e3983c = 3983" "kvsize e90d = 90"
  by (simp_all add: kvsize_def e90a_def e3983b_def e3983c_def e90d_def)

lemma entry_ok_examples:
  "entry_ok e90a" "entry_ok e3983b" "entry_ok e3983c" "entry_ok e90d"
  by (simp_all add: entry_ok_def e90a_def e3983b_def e3983c_def e90d_def BTREE_MAX_KEY_SIZE_def BTREE_MAX_VAL_SIZE_def)

text \<open>
  \<^verbatim>\<open>nodeSplit3\<close> is not total on all nodes of at most \<open>2P\<close> bytes: a leaf of 8190
  bytes with four keys within the limits is split into a right piece of 104 bytes and
  a left piece of 8090 bytes, and that into a middle piece of 3997 bytes and a first
  piece of 4097 bytes, which is more than a page: the assertion on
  \<^verbatim>\<open>leftleft.nbytes()\<close> fails. No insert builds a node of this size. A leaf of 8090
  bytes is split into three pieces.
\<close>

lemma nodeSplit3_fails_below_two_pages:
  "node_full node8190 \<and> entries_ok (ents node8190) \<and> nbytes node8190 = Some 8190
   \<and> 8190 \<le> 2 * BTREE_PAGE_SIZE \<and> 2 \<le> nkeys node8190 \<and> BTREE_PAGE_SIZE \<le> dlen node8190
   \<and> nodeSplit3 node8190 = None"
proof -
  have a: "node_full node8190" by (simp add: node_full_def node8190_def)
  have b: "entries_ok (ents node8190)" by (simp add: entries_ok_def node8190_def entry_ok_examples)
  have c: "nbytes node8190 = Some 8190"
    by (simp add: nbytes_def kvPos_def getOffset_def offs_def node8190_def HEADER_def u16_def)
  have d: "nodeSplit3 node8190 = None"
    by (simp add: nodeSplit3_def nodeSplit2_def split_shrink.simps split_grow.simps
        left_bytes_def right_bytes_def nbytes_def kvPos_def getOffset_def offs_def node8190_def
        HEADER_def u16_def sub16_def BTREE_PAGE_SIZE_def BNODE_LEAF_def make_node_def setHeader_def
        nodeAppendRange_def reslice_def Let_def)
  show ?thesis using a b c d by (simp add: node8190_def BTREE_PAGE_SIZE_def)
qed

lemma nodeSplit3_three_pieces:
  "node_full node8090 \<and> entries_ok (ents node8090)
   \<and> esize (ents node8090) \<le> 2 * BTREE_PAGE_SIZE - 3 \<and> BTREE_PAGE_SIZE \<le> dlen node8090
   \<and> map ents (the (nodeSplit3 node8090)) = [[e90a], [e3983b], [e3983c]]
   \<and> list_all (piece_ok node8090) (the (nodeSplit3 node8090))"
proof -
  have a: "node_full node8090" by (simp add: node_full_def node8090_def)
  have b: "entries_ok (ents node8090)" by (simp add: entries_ok_def node8090_def entry_ok_examples)
  have c: "esize (ents node8090) \<le> 2 * BTREE_PAGE_SIZE - 3"
    by (simp add: esize_def node8090_def BTREE_PAGE_SIZE_def)
  have d: "BTREE_PAGE_SIZE \<le> dlen node8090" by (simp add: node8090_def)
  have e: "map ents (the (nodeSplit3 node8090)) = [[e90a], [e3983b], [e3983c]]"
    by (simp add: nodeSplit3_def nodeSplit2_def split_shrink.simps split_grow.simps
        left_bytes_def right_bytes_def nbytes_def kvPos_def getOffset_def offs_def node8090_def
        HEADER_def u16_def sub16_def BTREE_PAGE_SIZE_def BNODE_LEAF_def make_node_def setHeader_def
        nodeAppendRange_def reslice_def Let_def)
  from nodeSplit3_pieces[OF a b c d] have "list_all (piece_ok node8090) (the (nodeSplit3 node8090))"
    by auto
  then show ?thesis using a b c d e by simp
qed

section \<open>The tree on concrete inputs\<close>

lemma length_vals [simp]: "length val7 = 3000" "length val8 = 3000" "length key1001 = 1001"
  by (simp_all add: val7_def val8_def key1001_def)

lemmas node_defs = nodeAppendKV_def nodeAppendRange_def leafInsert_def leafUpdate_def leafDelete_def
  nodeMerge_def nodeReplace2Kid_def kvPos_def getOffset_def getKey_def getVal_def getPtr_def nbytes_def
  offs_def kvsize_def setHeader_def make_node_def HEADER_def BTREE_PAGE_SIZE_def BNODE_LEAF_def BNODE_NODE_def
  BTREE_MAX_KEY_SIZE_def BTREE_MAX_VAL_SIZE_def bytes_Compare_def nodeLookupLE_def lookupLE_loop.simps
  u16_def sub16_def Let_def
lemmas split_defs = nodeSplit3_def nodeSplit2_def split_shrink.simps split_grow.simps
  left_bytes_def right_bytes_def reslice_def
lemmas pager_defs = pager_get_def pager_new_def pager_del_def checkLimit_def nodeReplaceKidN_def

lemma ins1: "Insert empty_tree [98] [1] = Some (None, tree1)"
  by (simp add: Insert_def empty_tree_def tree1_def node_defs pager_defs)

lemma ins2: "Insert tree1 [97] val7 = Some (None, tree2)"
  by (simp add: Insert_def tree1_def tree2_def treeInsert.simps node_defs pager_defs split_defs)

lemma ins3: "Insert tree2 [99] val8 = Some (None, tree3)"
  by (simp add: Insert_def tree2_def tree3_def treeInsert.simps node_defs pager_defs split_defs)
     (simp add: numeral_2_eq_2)

text \<open>
  Claim C1. A key that was inserted and not deleted is to be found with its last
  value, also under an internal root. After the three inserts the root is an
  internal node; \<^verbatim>\<open>Get\<close> of unnamed/part\_000 does not descend: it reports the key
  \<open>c\<close> of the second leaf as absent and the key \<open>b\<close>, which is also a separator in
  the root, as present with the empty value. \<^verbatim>\<open>Get\<close> of operations.go returns both
  values.
\<close>

theorem Get_part000_stops_at_root:
  "Insert empty_tree [98] [1] = Some (None, tree1)
   \<and> Insert tree1 [97] val7 = Some (None, tree2)
   \<and> Insert tree2 [99] val8 = Some (None, tree3)
   \<and> Get_part000 tree3 [99] = Some None
   \<and> Get_part000 tree3 [98] = Some (Some [])
   \<and> Get tree3 [99] = Some (Some val8)
   \<and> Get tree3 [98] = Some (Some [1])"
proof -
  have "Get_part000 tree3 [99] = Some None" "Get_part000 tree3 [98] = Some (Some [])"
    by (simp_all add: Get_part000_def tree3_def node_defs pager_defs)
  moreover have "Get tree3 [99] = Some (Some val8)" "Get tree3 [98] = Some (Some [1])"
    by (simp_all add: Get_def tree3_def Get_loop.simps node_defs pager_defs)
  ultimately show ?thesis using ins1 ins2 ins3 by simp
qed

text \<open>
  \<^verbatim>\<open>Delete\<close> accepts the empty key and removes the dummy first key of the tree with
  it; a later lookup of a key that is still in the tree can then fail in
  \<^verbatim>\<open>Get\<close> of operations.go as well.
\<close>

lemma Get_after_deleting_the_dummy_key:
  "(do { (e1, t1) \<leftarrow> Insert empty_tree [98] [1];
         (d, t2) \<leftarrow> Delete t1 [];
         (e3, t3) \<leftarrow> Insert t2 [97] [2];
         (e4, t4) \<leftarrow> Insert t3 [99] [3];
         r \<leftarrow> Get t4 [98];
         Some (d, r) }) = Some (True, None)"
  by (simp add: Insert_def Delete_def Get_def empty_tree_def treeInsert.simps treeDelete.simps
        Get_loop.simps node_defs pager_defs split_defs BNode_nil_def)

text \<open>
  Claim C6. A key of more than 1000 bytes is to be reported as \<open>KeyTooLarge\<close>, an
  outcome other than the \<^verbatim>\<open>false\<close> of an absent key. \<^verbatim>\<open>checkLimit\<close> finds the
  error, and \<^verbatim>\<open>Delete\<close> of operations.go and of unnamed/part\_000 returns
  \<^verbatim>\<open>false\<close> for it, as it does for the absent key \<open>c\<close>.
\<close>

theorem Delete_hides_KeyTooLarge:
  "Insert empty_tree [98] [1] = Some (None, tree1)
   \<and> checkLimit key1001 [] = Some KeyTooLarge
   \<and> Delete tree1 key1001 = Some (False, tree1)
   \<and> Delete tree1 [99] = Some (False, tree1)"
proof -
  have "Delete tree1 key1001 = Some (False, tree1)" "Delete tree1 [99] = Some (False, tree1)"
    "checkLimit key1001 [] = Some KeyTooLarge"
    by (simp_all add: Delete_def tree1_def treeDelete.simps node_defs pager_defs BNode_nil_def)
  then show ?thesis using ins1 by simp
qed

lemma Delete_too_large:
  "root tree \<noteq> 0 \<Longrightarrow> length key > BTREE_MAX_KEY_SIZE \<Longrightarrow> Delete tree key = Some (False, tree)"
  by (simp add: Delete_def checkLimit_def)

text \<open>
  Claim C5. When the updated kid has no key left and is not merged, the parent is to
  be emitted with no key, without a panic. In \<^verbatim>\<open>nodeDelete\<close> of operations.go and of
  unnamed/part\_000 the case without a merge asserts \<^verbatim>\<open>updated.nkeys() > 0\<close>:
  deleting the only key of the only kid of an internal node empties the kid,
  \<^verbatim>\<open>shouldMerge\<close> finds no sibling, and the assertion fails.
\<close>

theorem nodeDelete_single_kid_panics:
  "treeDelete pager_k leaf_k [107] = Some (\<lparr>dlen = 4096, btype = 2, nkeys = 0, ents = []\<rparr>, pager_k)
   \<and> map_option fst (shouldMerge pager_k parent_k 0 \<lparr>dlen = 4096, btype = 2, nkeys = 0, ents = []\<rparr>) = Some 0
   \<and> nodeDelete pager_k parent_k 0 [107] = None
   \<and> Delete \<lparr>root = 1, pager = pager_k\<rparr> [107] = None"
  by (simp add: nodeDelete_def Delete_def treeDelete.simps nodeDelete_link_def shouldMerge_def
        pager_k_def parent_k_def leaf_k_def node_defs pager_defs BNode_nil_def)

section \<open>Inserting the same key and value twice\<close>

subsection \<open>The slot found by nodeLookupLE\<close>

lemma getKey_keys: "length (ents node) = nkeys node \<Longrightarrow> i < nkeys node \<Longrightarrow> getKey node i = Some (keys node ! i)"
  by (simp add: getKey_def keys_def)

lemma lookupLE_loop_le_pos:
  assumes len: "length (ents node) = nkeys node"
    and i: "1 \<le> i" "i \<le> nkeys node"
    and below: "\<forall>j. 1 \<le> j \<and> j < i \<longrightarrow> keys node ! j < k"
  shows "\<exists>r. lookupLE_loop node k i (i - 1) = Some r \<and> le_pos (keys node) k r"
  using i below
proof (induction "nkeys node - i" arbitrary: i)
  case 0
  then have "i = nkeys node" by simp
  moreover have "length (keys node) = nkeys node" using len by (simp add: keys_def)
  ultimately show ?case using "0.prems"
    by (subst lookupLE_loop.simps) (auto simp: le_pos_def less_le)
next
  case (Suc d)
  then have lt: "i < nkeys node" by simp
  have lk: "length (keys node) = nkeys node" using len by (simp add: keys_def)
  have gk: "getKey node i = Some (keys node ! i)" using getKey_keys[OF len lt] .
  let ?ki = "keys node ! i"
  consider (gt) "k < ?ki" | (eq) "?ki = k" | (lt) "?ki < k" by (metis not_less_iff_gr_or_eq)
  then show ?case
  proof cases
    case gt
    then have c: "bytes_Compare ?ki k = 1" by (auto simp: bytes_Compare_def)
    have "lookupLE_loop node k i (i - 1) = Some (i - 1)"
      using lt gk c by (subst lookupLE_loop.simps) (simp add: Let_def)
    moreover have "le_pos (keys node) k (i - 1)"
      using Suc.prems lt lk gt by (auto simp: le_pos_def less_le)
    ultimately show ?thesis by blast
  next
    case eq
    then have c: "bytes_Compare ?ki k = 0" by (auto simp: bytes_Compare_def)
    have "lookupLE_loop node k i (i - 1) = Some i"
      using lt gk c by (subst lookupLE_loop.simps) (simp add: Let_def)
    moreover have "le_pos (keys node) k i"
      using Suc.prems lt lk eq by (auto simp: le_pos_def)
    ultimately show ?thesis by blast
  next
    case lt2: lt
    then have c: "bytes_Compare ?ki k = - 1" by (auto simp: bytes_Compare_def)
    have step: "lookupLE_loop node k i (i - 1) = lookupLE_loop node k (i + 1) i"
      using lt gk c by (subst lookupLE_loop.simps) (simp add: Let_def)
    have "d = nkeys node - (i + 1)" using Suc.hyps(2) by simp
    moreover have "\<forall>j. 1 \<le> j \<and> j < i + 1 \<longrightarrow> keys node ! j < k"
      using Suc.prems(3) lt2 by (auto simp: less_Suc_eq)
    ultimately have "\<exists>r. lookupLE_loop node k (i + 1) (i + 1 - 1) = Some r \<and> le_pos (keys node) k r"
      using Suc.hyps(1)[of "i + 1"] lt by simp
    then show ?thesis using step by simp
  qed
qed

lemma le_pos_unique: "le_pos ks k i \<Longrightarrow> le_pos ks k j \<Longrightarrow> i = j"
proof (rule ccontr)
  assume a: "le_pos ks k i" and b: "le_pos ks k j" and ne: "i \<noteq> j"
  have aux: "False" if a: "le_pos ks k i" and b: "le_pos ks k j" and lt: "i < j" for i j
  proof -
    have j: "j < length ks" "1 \<le> j" "ks ! j \<le> k" using b lt by (auto simp: le_pos_def)
    have lower: "\<forall>l. 1 \<le> l \<and> l < j \<longrightarrow> ks ! l < k" using b by (simp add: le_pos_def)
    have "i + 1 < length ks" using lt j by simp
    then consider "1 \<le> i \<and> ks ! i = k" | "k < ks ! (i + 1)" using a by (auto simp: le_pos_def)
    then show False
    proof cases
      case 1
      then show ?thesis using lower lt by auto
    next
      case 2
      show ?thesis
      proof (cases "i + 1 = j")
        case True
        then show ?thesis using 2 j by simp
      next
        case False
        then have "ks ! (i + 1) < k" using lower lt by simp
        then show ?thesis using 2 by simp
      qed
    qed
  qed
  from ne consider "i < j" | "j < i" by (metis nat_neq_iff)
  then show False using aux a b by cases blast+
qed

lemma nodeLookupLE_le_pos:
  assumes "length (ents node) = nkeys node" "1 \<le> nkeys node"
  shows "nodeLookupLE node k = Some i \<longleftrightarrow> le_pos (keys node) k i"
proof -
  obtain r where r: "lookupLE_loop node k 1 (1 - 1) = Some r" "le_pos (keys node) k r"
    using lookupLE_loop_le_pos[OF assms(1), of 1 k] assms(2) by auto
  then have "nodeLookupLE node k = Some r" by (simp add: nodeLookupLE_def)
  then show ?thesis using r(2) le_pos_unique by auto
qed

subsection \<open>Subtrees and the pages below them\<close>

lemma nptrs_Suc: "nptrs m (Suc h) n = \<Union> (set (map (subs m h) (ents n)))"
  by (auto simp: subs_def)

lemma chain_cong:
  "(\<And>e l u. e \<in> set es \<Longrightarrow> Q e l u = Q' e l u) \<Longrightarrow> chain Q es lo hi = chain Q' es lo hi"
  by (induction Q es lo hi rule: chain.induct) auto

lemma chain_append:
  "xs \<noteq> [] \<Longrightarrow> ys \<noteq> [] \<Longrightarrow>
   chain Q (xs @ ys) lo hi = (chain Q xs lo (Some (fst (snd (hd ys)))) \<and> chain Q ys (Some (fst (snd (hd ys)))) hi)"
proof (induction Q xs lo hi rule: chain.induct)
  case (1 Q lo hi)
  then show ?case by simp
next
  case (2 Q e lo hi)
  then show ?case by (cases ys) auto
next
  case (3 Q e e' es lo hi)
  then show ?case by auto
qed

lemma disj_list_append:
  "disj_list (xs @ ys) = (disj_list xs \<and> disj_list ys \<and> (\<forall>A\<in>set xs. \<forall>B\<in>set ys. A \<inter> B = {}))"
  by (induction xs) auto

lemma frame:
  "(\<And>q. q \<in> nptrs m h n \<Longrightarrow> m' q = m q) \<Longrightarrow>
   nptrs m' h n = nptrs m h n \<and> wfn m' h n lo hi = wfn m h n lo hi \<and> kvs m' h n = kvs m h n"
proof (induction h arbitrary: n lo hi)
  case 0
  then show ?case by simp
next
  case (Suc h)
  have same: "m' (fst e) = m (fst e)" if "e \<in> set (ents n)" for e
    using Suc.prems[of "fst e"] that by auto
  have sub: "nptrs m' h c = nptrs m h c \<and> (\<forall>l u. wfn m' h c l u = wfn m h c l u) \<and> kvs m' h c = kvs m h c"
    if e: "e \<in> set (ents n)" and c: "m (fst e) = Some c" for e c
  proof -
    have "q \<in> nptrs m (Suc h) n" if "q \<in> nptrs m h c" for q
      using that e c by (auto intro!: bexI[of _ e])
    then have "\<And>q. q \<in> nptrs m h c \<Longrightarrow> m' q = m q"
      using Suc.prems by blast
    then show ?thesis using Suc.IH[of c] by blast
  qed
  have s: "subs m' h e = subs m h e" if "e \<in> set (ents n)" for e
    using same[OF that] sub[OF that] by (auto simp: subs_def split: option.splits)
  have k: "kid_ok m' h (wfn m' h) e l u = kid_ok m h (wfn m h) e l u" if "e \<in> set (ents n)" for e l u
    using same[OF that] sub[OF that] by (auto simp: kid_ok_def split: option.splits)
  have n: "nptrs m' (Suc h) n = nptrs m (Suc h) n"
    unfolding nptrs_Suc using s by auto
  have w: "wfn m' (Suc h) n lo hi = wfn m (Suc h) n lo hi"
  proof -
    have c1: "chain (kid_ok m' h (wfn m' h)) (ents n) lo hi = chain (kid_ok m h (wfn m h)) (ents n) lo hi"
      using k by (intro chain_cong) auto
    have c2: "map (subs m' h) (ents n) = map (subs m h) (ents n)"
      using s by auto
    show ?thesis by (simp only: wfn.simps c1 c2)
  qed
  have v: "kvs m' (Suc h) n = kvs m (Suc h) n"
  proof -
    have "map (\<lambda>e. case m' (fst e) of None \<Rightarrow> [] | Some c \<Rightarrow> kvs m' h c) (ents n)
        = map (\<lambda>e. case m (fst e) of None \<Rightarrow> [] | Some c \<Rightarrow> kvs m h c) (ents n)"
      using same sub by (auto split: option.splits)
    then show ?thesis by (simp only: kvs.simps)
  qed
  show ?case using n w v by blast
qed

subsection \<open>The nodes built by leafInsert and leafUpdate\<close>

lemma esize_nkeys: "esize es \<le> BTREE_PAGE_SIZE \<Longrightarrow> 10 * length es + 4 \<le> 4096"
  by (simp add: esize_def BTREE_PAGE_SIZE_def)

lemma sum_take_le: "sum_list (map kvsize (take i es)) \<le> sum_list (map kvsize es)"
  using offs_le[of es i] by (simp add: offs_def)

lemma sum_drop_le: "sum_list (map kvsize (drop i es)) \<le> sum_list (map kvsize es)"
proof -
  have "sum_list (map kvsize es) = sum_list (map kvsize (take i es)) + sum_list (map kvsize (drop i es))"
    by (metis append_take_drop_id map_append sum_list_append)
  then show ?thesis by simp
qed

lemma sum_take_drop: "sum_list (map kvsize (take i es)) + sum_list (map kvsize (drop i es)) = sum_list (map kvsize es)"
  by (metis append_take_drop_id map_append sum_list_append)

lemma leafUpdate_build:
  assumes full: "length (ents old) = nkeys old" and size: "esize (ents old) \<le> BTREE_PAGE_SIZE"
    and idx: "idx < nkeys old"
    and lim: "length k \<le> BTREE_MAX_KEY_SIZE" "length v \<le> BTREE_MAX_VAL_SIZE"
  shows "leafUpdate (make_node (2 * BTREE_PAGE_SIZE)) old idx k v
         = Some \<lparr>dlen = 2 * BTREE_PAGE_SIZE, btype = BNODE_LEAF, nkeys = nkeys old,
                  ents = take idx (ents old) @ (0, k, v) # drop (idx + 1) (ents old)\<rparr>"
proof -
  let ?es = "ents old" and ?n = "nkeys old"
  have P: "BTREE_PAGE_SIZE = 4096" by (simp add: BTREE_PAGE_SIZE_def)
  have small: "esize ?es < 65536" using size P by simp
  have n: "10 * ?n + 4 \<le> 4096" using esize_nkeys[OF size] full by simp
  have sz: "4 + 10 * ?n + sum_list (map kvsize ?es) \<le> 4096" using size P full by (simp add: esize_def)
  have kv: "kvsize (0, k, v) \<le> 4004"
    using lim by (simp add: kvsize_def BTREE_MAX_KEY_SIZE_def BTREE_MAX_VAL_SIZE_def)
  let ?h = "setHeader (make_node (2 * BTREE_PAGE_SIZE)) BNODE_LEAF ?n"
  let ?n1 = "?h\<lparr>ents := take idx ?es\<rparr>"
  let ?n2 = "?h\<lparr>ents := take idx ?es @ [(0, k, v)]\<rparr>"
  let ?n3 = "?h\<lparr>ents := take idx ?es @ (0, k, v) # drop (idx + 1) ?es\<rparr>"
  have t: "sum_list (map kvsize (take idx ?es)) \<le> sum_list (map kvsize ?es)" by (rule sum_take_le)
  have d: "sum_list (map kvsize (take idx ?es)) + sum_list (map kvsize (drop (idx + 1) ?es)) \<le> sum_list (map kvsize ?es)"
  proof -
    have "sum_list (map kvsize (drop (idx + 1) ?es)) \<le> sum_list (map kvsize (drop idx ?es))"
      using sum_drop_le[of 1 "drop idx ?es"] by simp
    then show ?thesis using sum_take_drop[of idx ?es] by simp
  qed
  have a1: "nodeAppendRange ?h old 0 0 idx = Some ?n1"
    using nodeAppendRange_build[OF full small, where src = 0 and n = idx and dst = 0 and new = ?h]
      idx t sz P
    by (simp add: setHeader_def make_node_def csize_def)
  have a2: "nodeAppendKV ?n1 idx 0 k v = Some ?n2"
    using nodeAppendKV_build[where node = ?n1 and idx = idx and ptr = 0 and key = k and val = v]
      idx full t sz kv P
    by (simp add: setHeader_def make_node_def csize_def min_def)
  have a3: "nodeAppendRange ?n2 old (idx + 1) (idx + 1) (?n - (idx + 1)) = Some ?n3"
    using nodeAppendRange_build[OF full small, where src = "idx + 1" and n = "?n - (idx + 1)"
        and dst = "idx + 1" and new = ?n2]
      idx full d sz kv P
    by (simp add: setHeader_def make_node_def csize_def min_def)
  have i16: "idx + 1 < 65536" "?n < 65536" using idx n by simp_all
  show ?thesis
    using a1 a2 a3 i16 idx
    by (simp add: leafUpdate_def setHeader_def make_node_def)
qed

lemma leafInsert_build:
  assumes full: "length (ents old) = nkeys old" and size: "esize (ents old) \<le> BTREE_PAGE_SIZE"
    and idx: "idx \<le> nkeys old"
    and lim: "length k \<le> BTREE_MAX_KEY_SIZE" "length v \<le> BTREE_MAX_VAL_SIZE"
  shows "leafInsert (make_node (2 * BTREE_PAGE_SIZE)) old idx k v
         = Some \<lparr>dlen = 2 * BTREE_PAGE_SIZE, btype = BNODE_LEAF, nkeys = nkeys old + 1,
                  ents = take idx (ents old) @ (0, k, v) # drop idx (ents old)\<rparr>"
proof -
  let ?es = "ents old" and ?n = "nkeys old"
  have P: "BTREE_PAGE_SIZE = 4096" by (simp add: BTREE_PAGE_SIZE_def)
  have small: "esize ?es < 65536" using size P by simp
  have n: "10 * ?n + 4 \<le> 4096" using esize_nkeys[OF size] full by simp
  have sz: "4 + 10 * ?n + sum_list (map kvsize ?es) \<le> 4096" using size P full by (simp add: esize_def)
  have kv: "kvsize (0, k, v) \<le> 4004"
    using lim by (simp add: kvsize_def BTREE_MAX_KEY_SIZE_def BTREE_MAX_VAL_SIZE_def)
  let ?h = "setHeader (make_node (2 * BTREE_PAGE_SIZE)) BNODE_LEAF (?n + 1)"
  let ?n1 = "?h\<lparr>ents := take idx ?es\<rparr>"
  let ?n2 = "?h\<lparr>ents := take idx ?es @ [(0, k, v)]\<rparr>"
  let ?n3 = "?h\<lparr>ents := take idx ?es @ (0, k, v) # drop idx ?es\<rparr>"
  have t: "sum_list (map kvsize (take idx ?es)) \<le> sum_list (map kvsize ?es)" by (rule sum_take_le)
  have d: "sum_list (map kvsize (take idx ?es)) + sum_list (map kvsize (drop idx ?es)) = sum_list (map kvsize ?es)"
    by (rule sum_take_drop)
  have a1: "nodeAppendRange ?h old 0 0 idx = Some ?n1"
    using nodeAppendRange_build[OF full small, where src = 0 and n = idx and dst = 0 and new = ?h]
      idx t sz P
    by (simp add: setHeader_def make_node_def csize_def)
  have a2: "nodeAppendKV ?n1 idx 0 k v = Some ?n2"
    using nodeAppendKV_build[where node = ?n1 and idx = idx and ptr = 0 and key = k and val = v]
      idx full t sz kv P
    by (simp add: setHeader_def make_node_def csize_def min_def)
  have a3: "nodeAppendRange ?n2 old (idx + 1) idx (?n - idx) = Some ?n3"
    using nodeAppendRange_build[OF full small, where src = idx and n = "?n - idx"
        and dst = "idx + 1" and new = ?n2]
      idx full d sz kv P
    by (simp add: setHeader_def make_node_def csize_def min_def)
  have i16: "idx + 1 < 65536" "?n + 1 < 65536" using idx n by simp_all
  show ?thesis
    using a1 a2 a3 i16 idx n
    by (simp add: leafInsert_def setHeader_def make_node_def)
qed

lemma sorted_tl_app:
  "sorted_wrt (<) (tl (X @ y # Z)) \<Longrightarrow>
     sorted_wrt (<) (tl X) \<and> sorted_wrt (<) Z \<and> (\<forall>x\<in>set (tl X). x < y) \<and> (\<forall>z\<in>set Z. \<forall>x\<in>set (tl X). x < z)
     \<and> (X \<noteq> [] \<longrightarrow> (\<forall>z\<in>set Z. y < z))"
  by (cases X) (auto simp: sorted_wrt_append)

lemma le_pos_decomp:
  assumes "sorted_wrt (<) (tl (X @ y # Z))"
  shows "le_pos (X @ y # Z) k (length X) \<longleftrightarrow> ((X \<noteq> [] \<longrightarrow> y \<le> k) \<and> (Z \<noteq> [] \<longrightarrow> k < hd Z))"
proof -
  have s: "\<forall>x\<in>set (tl X). x < y" using sorted_tl_app[OF assms] by simp
  have below: "(\<forall>j. 1 \<le> j \<and> j < length X \<longrightarrow> (X @ y # Z) ! j < k)" if "X \<noteq> [] \<longrightarrow> y \<le> k"
  proof (intro allI impI)
    fix j assume j: "1 \<le> j \<and> j < length X"
    then have "X ! j \<in> set (tl X)"
      by (cases X) (auto simp: nth_Cons')
    then have "X ! j < y" using s by simp
    moreover have "y \<le> k" using that j by auto
    ultimately show "(X @ y # Z) ! j < k" using j by (simp add: nth_append)
  qed
  have hdz: "Z \<noteq> [] \<Longrightarrow> (X @ y # Z) ! (length X + 1) = hd Z"
    by (cases Z) (simp_all add: nth_append)
  have yk: "X \<noteq> [] \<Longrightarrow> Z \<noteq> [] \<Longrightarrow> y < hd Z"
    using sorted_tl_app[OF assms] by (cases Z) auto
  show ?thesis
  proof
    assume l: "le_pos (X @ y # Z) k (length X)"
    have a: "X \<noteq> [] \<longrightarrow> y \<le> k" using l by (auto simp: le_pos_def Suc_le_eq)
    have "k < hd Z" if z: "Z \<noteq> []"
    proof -
      have "(1 \<le> length X \<and> y = k) \<or> k < hd Z"
        using l z hdz by (auto simp: le_pos_def Suc_le_eq)
      moreover have "1 \<le> length X \<Longrightarrow> X \<noteq> []" by auto
      ultimately show ?thesis using yk[OF _ z] by blast
    qed
    then show "(X \<noteq> [] \<longrightarrow> y \<le> k) \<and> (Z \<noteq> [] \<longrightarrow> k < hd Z)" using a by simp
  next
    assume r: "(X \<noteq> [] \<longrightarrow> y \<le> k) \<and> (Z \<noteq> [] \<longrightarrow> k < hd Z)"
    then show "le_pos (X @ y # Z) k (length X)"
      using below hdz unfolding le_pos_def by (auto simp: nth_append Suc_le_eq)
  qed
qed

lemma keys_ok_insert:
  assumes ok: "keys_ok (X @ y # Z) lo hi"
    and pos: "le_pos (X @ y # Z) k (length X)"
    and ne: "y \<noteq> k"
    and lo: "\<forall>s. lo = Some s \<longrightarrow> s \<le> k"
    and hi: "\<forall>u. hi = Some u \<longrightarrow> k < u"
  shows "keys_ok (X @ y # k # Z) lo hi \<and> le_pos (X @ y # k # Z) k (length X + 1)"
proof -
  have srt: "sorted_wrt (<) (tl (X @ y # Z))" using ok by (simp add: keys_ok_def)
  have d: "(X \<noteq> [] \<longrightarrow> y \<le> k)" "(Z \<noteq> [] \<longrightarrow> k < hd Z)"
    using pos le_pos_decomp[OF srt] by auto
  have kz: "\<forall>z\<in>set Z. k < z"
  proof (cases Z)
    case Nil then show ?thesis by simp
  next
    case (Cons z Z')
    then have "k < z" using d(2) by simp
    moreover have "\<forall>x\<in>set Z'. z < x" using sorted_tl_app[OF srt] Cons by simp
    ultimately show ?thesis using Cons by auto
  qed
  have srt': "sorted_wrt (<) (tl (X @ y # k # Z))"
  proof (cases X)
    case Nil
    then show ?thesis using srt kz by simp
  next
    case (Cons x X')
    then have "y < k" using d(1) ne by simp
    then show ?thesis using srt kz Cons by (auto simp: sorted_wrt_append)
  qed
  have lo': "hd (X @ y # k # Z) = s \<and> (\<forall>x\<in>set (tl (X @ y # k # Z)). s < x)" if l: "lo = Some s" for s
  proof -
    have h: "hd (X @ y # Z) = s" and t: "\<forall>x\<in>set (tl (X @ y # Z)). s < x"
      using ok l by (auto simp: keys_ok_def)
    have sk: "s < k"
    proof (cases X)
      case Nil
      then have "y = s" using h by simp
      then show ?thesis using lo l ne by auto
    next
      case (Cons x X')
      then have "s < y" using t by simp
      then show ?thesis using d(1) Cons by auto
    qed
    show ?thesis using h t sk by (cases X) auto
  qed
  have hi': "(\<forall>x\<in>set (tl (X @ y # k # Z)). x < u) \<and> (\<forall>s. lo = Some s \<longrightarrow> s < u)" if u: "hi = Some u" for u
  proof -
    have t: "\<forall>x\<in>set (tl (X @ y # Z)). x < u" and l: "\<forall>s. lo = Some s \<longrightarrow> s < u"
      using ok u by (auto simp: keys_ok_def)
    have "k < u" using hi u by simp
    then show ?thesis using t l by (cases X) auto
  qed
  have k1: "keys_ok (X @ y # k # Z) lo hi"
    using srt' lo' hi' by (simp add: keys_ok_def)
  have "le_pos ((X @ [y]) @ k # Z) k (length (X @ [y]))"
    using le_pos_decomp[of "X @ [y]" k Z k] srt' d(2) by simp
  then show ?thesis using k1 by simp
qed

subsection \<open>treeInsert at a leaf\<close>

lemma keys_append [simp]: "keys (n\<lparr>ents := es\<rparr>) = map (fst \<circ> snd) es"
  by (simp add: keys_def)

lemma nodeLookupLE_ex:
  assumes "length (ents node) = nkeys node" "1 \<le> nkeys node"
  shows "\<exists>i. nodeLookupLE node k = Some i \<and> le_pos (keys node) k i \<and> i < nkeys node"
proof -
  obtain r where r: "lookupLE_loop node k 1 (1 - 1) = Some r" "le_pos (keys node) k r"
    using lookupLE_loop_le_pos[OF assms(1), of 1 k] assms(2) by auto
  moreover have "r < nkeys node" using r(2) assms(1) by (simp add: le_pos_def keys_def)
  ultimately show ?thesis by (auto simp: nodeLookupLE_def)
qed

lemma treeInsert_leaf:
  assumes wf: "wfn m0 0 node lo hi" and size: "esize (ents node) \<le> BTREE_PAGE_SIZE"
    and lo: "\<forall>s. lo = Some s \<longrightarrow> s \<le> k" and hi: "\<forall>u. hi = Some u \<longrightarrow> k < u"
    and lim: "length k \<le> BTREE_MAX_KEY_SIZE" "length v \<le> BTREE_MAX_VAL_SIZE"
    and fresh: "\<forall>q\<ge>next_ptr pg. pages pg q = None"
  shows "\<exists>new. treeInsert pg node k v = Some (new, pg) \<and> ins_post m0 0 node lo hi pg k v new pg"
proof -
  let ?es = "ents node" and ?n = "nkeys node"
  have P: "BTREE_PAGE_SIZE = 4096" by (simp add: BTREE_PAGE_SIZE_def)
  have leaf: "btype node = BNODE_LEAF" and full: "length ?es = ?n" and n16: "?n < 65536"
    and eok: "entries_ok ?es" and kok: "keys_ok (keys node) lo hi"
    using wf by (simp_all add: node_full_def)
  have ne: "1 \<le> ?n" using kok full by (cases ?es) (auto simp: keys_ok_def keys_def)
  obtain idx where idx: "nodeLookupLE node k = Some idx" "le_pos (keys node) k idx" "idx < ?n"
    using nodeLookupLE_ex[OF full ne] by blast
  define A where "A = take idx ?es"
  define e where "e = ?es ! idx"
  define B where "B = drop (idx + 1) ?es"
  have dec: "?es = A @ e # B" and lA: "length A = idx"
    using idx(3) full by (simp_all add: A_def e_def B_def id_take_nth_drop)
  define X where "X = map (fst \<circ> snd) A"
  define y where "y = fst (snd e)"
  define Z where "Z = map (fst \<circ> snd) B"
  have kdec: "keys node = X @ y # Z" and lX: "length X = idx"
    using dec lA by (simp_all add: keys_def X_def y_def Z_def)
  have gk: "getKey node idx = Some y"
    using getKey_keys[OF full idx(3)] kdec lX by (simp add: nth_append)
  have kv: "entry_ok (0, k, v)" using lim by (simp add: entry_ok_def)
  have kvs4: "kvsize (0, k, v) \<le> 4004" using entry_ok_kvsize[OF kv] .
  have idx16: "idx + 1 < 65536" using idx(3) n16 by simp
  show ?thesis
  proof (cases "k = y")
    case True
    let ?new = "\<lparr>dlen = 2 * BTREE_PAGE_SIZE, btype = BNODE_LEAF, nkeys = ?n, ents = A @ (0, k, v) # B\<rparr>"
    have upd: "leafUpdate (make_node (2 * BTREE_PAGE_SIZE)) node idx k v = Some ?new"
      using leafUpdate_build[OF full size idx(3) lim] by (simp add: A_def B_def)
    have run: "treeInsert pg node k v = Some (?new, pg)"
      using idx(1) leaf gk True upd by (subst treeInsert.simps) simp
    have keq: "keys ?new = keys node" using kdec True by (simp add: keys_def X_def Z_def)
    have w: "wfn (pages pg) 0 ?new lo hi"
      using kok keq eok kv dec full n16 by (simp add: node_full_def entries_ok_def)
    have sz: "esize (ents ?new) \<le> 2 * BTREE_PAGE_SIZE - 3"
    proof -
      have "esize (A @ (0, k, v) # B) + kvsize e = esize ?es + kvsize (0, k, v)"
        using dec by (simp add: esize_def)
      then show ?thesis using size kvs4 P by simp
    qed
    have f: "finds (pages pg) 0 ?new k v"
      using idx(2) keq lA by (auto simp: nth_append intro!: exI[of _ idx])
    have c: "kvs (pages pg) 0 ?new = kvs m0 0 node \<and> map snd (ents ?new) = map snd ?es"
      if fo: "finds m0 0 node k v"
    proof -
      obtain i where i: "le_pos (keys node) k i" "snd (?es ! i) = (k, v)" using fo by auto
      have "i = idx" using le_pos_unique[OF i(1) idx(2)] .
      then have "snd e = (k, v)" using i(2) by (simp add: e_def)
      then show ?thesis using dec by simp
    qed
    show ?thesis using run w sz f c fresh by (auto simp: ins_post_def)
  next
    case False
    let ?new = "\<lparr>dlen = 2 * BTREE_PAGE_SIZE, btype = BNODE_LEAF, nkeys = ?n + 1, ents = A @ e # (0, k, v) # B\<rparr>"
    have "leafInsert (make_node (2 * BTREE_PAGE_SIZE)) node (idx + 1) k v
          = Some \<lparr>dlen = 2 * BTREE_PAGE_SIZE, btype = BNODE_LEAF, nkeys = ?n + 1,
                   ents = take (idx + 1) ?es @ (0, k, v) # drop (idx + 1) ?es\<rparr>"
      using leafInsert_build[OF full size _ lim, of "idx + 1"] idx(3) by simp
    moreover have "take (idx + 1) ?es = A @ [e]" using dec lA by simp
    ultimately have ins: "leafInsert (make_node (2 * BTREE_PAGE_SIZE)) node (idx + 1) k v = Some ?new"
      by (simp add: B_def)
    have run: "treeInsert pg node k v = Some (?new, pg)"
      using idx(1) leaf gk False ins idx16 by (subst treeInsert.simps) simp
    have knew: "keys ?new = X @ y # k # Z" by (simp add: keys_def X_def y_def Z_def)
    have ko: "keys_ok (X @ y # k # Z) lo hi" and lp: "le_pos (X @ y # k # Z) k (length X + 1)"
      using keys_ok_insert[of X y Z lo hi k] kok idx(2) False lo hi kdec lX by auto
    have n1: "?n + 1 < 65536" using esize_nkeys[OF size] full by simp
    have w: "wfn (pages pg) 0 ?new lo hi"
      using ko knew eok kv dec full n1 by (simp add: node_full_def entries_ok_def)
    have sz: "esize (ents ?new) \<le> 2 * BTREE_PAGE_SIZE - 3"
    proof -
      have "esize (A @ e # (0, k, v) # B) = esize ?es + 10 + kvsize (0, k, v)"
        using dec by (simp add: esize_def)
      then show ?thesis using size kvs4 P by simp
    qed
    have f: "finds (pages pg) 0 ?new k v"
      using lp knew lX lA by (auto simp: nth_append intro!: exI[of _ "idx + 1"])
    have c: "\<not> finds m0 0 node k v"
    proof
      assume "finds m0 0 node k v"
      then obtain i where i: "le_pos (keys node) k i" "snd (?es ! i) = (k, v)" by auto
      have "i = idx" using le_pos_unique[OF i(1) idx(2)] .
      then have "snd e = (k, v)" using i(2) by (simp add: e_def)
      then show False using False by (simp add: y_def)
    qed
    show ?thesis using run w sz f c fresh by (auto simp: ins_post_def)
  qed
qed

subsection \<open>Splitting a well-formed node\<close>

lemma wfn_cong:
  "btype n' = btype n \<Longrightarrow> ents n' = ents n \<Longrightarrow> nkeys n' = nkeys n \<Longrightarrow>
   wfn m h n' lo hi = wfn m h n lo hi"
  by (cases h) (simp_all add: node_full_def keys_def)

lemma nptrs_cong: "ents n' = ents n \<Longrightarrow> nptrs m h n' = nptrs m h n"
  by (cases h) simp_all

lemma kvs_cong: "ents n' = ents n \<Longrightarrow> kvs m h n' = kvs m h n"
  by (cases h) simp_all

lemma finds_cong: "btype n' = btype n \<Longrightarrow> ents n' = ents n \<Longrightarrow> finds m h n' k v = finds m h n k v"
  by (cases h) (simp_all add: keys_def)

lemma wfn_keys_ok: "wfn m h n lo hi \<Longrightarrow> keys_ok (keys n) lo hi"
  by (cases h) simp_all

lemma wfn_full: "wfn m h n lo hi \<Longrightarrow> node_full n \<and> entries_ok (ents n) \<and> ents n \<noteq> []"
  by (cases h) (auto simp: keys_ok_def keys_def)

lemma wfn_defined:
  "wfn m h n lo hi \<Longrightarrow> q \<in> nptrs m h n \<Longrightarrow> m q \<noteq> None"
proof (induction h arbitrary: n lo hi q)
  case 0
  then show ?case by simp
next
  case (Suc h)
  have ch: "chain (kid_ok m h (wfn m h)) (ents n) lo hi" using Suc.prems(1) by simp
  have each: "\<exists>c l u. m (fst e) = Some c \<and> wfn m h c l u" if "e \<in> set (ents n)" for e
    using ch that
  proof (induction "kid_ok m h (wfn m h)" "ents n" lo hi arbitrary: n rule: chain.induct)
    case (1 lo hi)
    then show ?case by simp
  next
    case (2 e' lo hi)
    then have "e = e'" "kid_ok m h (wfn m h) e' lo hi"
      by (metis list.set_cases list.inject list.distinct(1) empty_iff empty_set set_ConsD, metis chain.simps(2))
    then show ?case by (auto simp: kid_ok_def split: option.splits)
  next
    case (3 e1 e2 es lo hi)
    have es: "ents n = e1 # e2 # es" using 3(2) by simp
    have c: "kid_ok m h (wfn m h) e1 lo (Some (ekey e2))" "chain (kid_ok m h (wfn m h)) (e2 # es) (Some (ekey e2)) hi"
      using 3(3) es by simp_all
    show ?case
    proof (cases "e = e1")
      case True
      then show ?thesis using c(1) by (auto simp: kid_ok_def split: option.splits)
    next
      case False
      then have "e \<in> set (e2 # es)" using 3(4) es by simp
      then show ?thesis using 3(1)[of "n\<lparr>ents := e2 # es\<rparr>"] c(2) by simp
    qed
  qed
  obtain e where e: "e \<in> set (ents n)" "q \<in> subs m h e" using Suc.prems(2) by (auto simp: subs_def)
  obtain c l u where c: "m (fst e) = Some c" "wfn m h c l u" using each[OF e(1)] by blast
  show ?case
  proof (cases "q = fst e")
    case True
    then show ?thesis using c by simp
  next
    case False
    then have "q \<in> nptrs m h c" using e(2) c(1) by (simp add: subs_def)
    then show ?thesis using Suc.IH[OF c(2)] by blast
  qed
qed

lemma keys_ok_split:
  assumes "keys_ok (K1 @ K2) lo hi" "K1 \<noteq> []" "K2 \<noteq> []"
  shows "keys_ok K1 lo (Some (hd K2)) \<and> keys_ok K2 (Some (hd K2)) hi"
proof -
  obtain a K1' where K1: "K1 = a # K1'" using assms(2) by (cases K1) auto
  obtain b K2' where K2: "K2 = b # K2'" using assms(3) by (cases K2) auto
  show ?thesis using assms(1) unfolding K1 K2
    by (auto simp: keys_ok_def sorted_wrt_append)
qed

lemma wfn_split2:
  assumes wf: "wfn m h c lo hi"
    and dec: "ents c = ents p1 @ ents p2" "ents p1 \<noteq> []" "ents p2 \<noteq> []"
    and p1: "btype p1 = btype c" "node_full p1"
    and p2: "btype p2 = btype c" "node_full p2"
  shows "wfn m h p1 lo (Some (ekey (hd (ents p2)))) \<and> wfn m h p2 (Some (ekey (hd (ents p2)))) hi
         \<and> nptrs m h p1 \<inter> nptrs m h p2 = {} \<and> nptrs m h c = nptrs m h p1 \<union> nptrs m h p2"
proof -
  have k: "keys c = keys p1 @ keys p2" "keys p1 \<noteq> []" "keys p2 \<noteq> []"
    "hd (keys p2) = ekey (hd (ents p2))"
    using dec by (simp_all add: keys_def hd_map)
  have ko: "keys_ok (keys p1) lo (Some (ekey (hd (ents p2))))"
           "keys_ok (keys p2) (Some (ekey (hd (ents p2)))) hi"
    using keys_ok_split[of "keys p1" "keys p2" lo hi] wfn_keys_ok[OF wf] k by simp_all
  have eo: "entries_ok (ents p1)" "entries_ok (ents p2)"
    using wfn_full[OF wf] dec(1) by (simp_all add: entries_ok_def)
  show ?thesis
  proof (cases h)
    case 0
    then show ?thesis using wf ko eo p1 p2 by simp
  next
    case (Suc h')
    have ch: "chain (kid_ok m h' (wfn m h')) (ents p1 @ ents p2) lo hi"
      and dj: "disj_list (map (subs m h') (ents p1) @ map (subs m h') (ents p2))"
      and vs: "\<forall>e\<in>set (ents p1 @ ents p2). snd (snd e) = []"
      using wf Suc dec(1) by simp_all
    have d: "nptrs m h p1 \<inter> nptrs m h p2 = {}"
      using dj unfolding Suc nptrs_Suc disj_list_append by auto
    have u: "nptrs m h c = nptrs m h p1 \<union> nptrs m h p2"
      unfolding Suc nptrs_Suc using dec(1) by simp
    show ?thesis
      using wf ko eo p1 p2 d u vs ch[unfolded chain_append[OF dec(2,3)]] dj[unfolded disj_list_append]
      unfolding Suc by simp
  qed
qed

lemma chain_keys_ok:
  "chain (kid_ok m h (wfn m h)) es lo hi \<Longrightarrow> es \<noteq> [] \<Longrightarrow> keys_ok (map ekey es) lo hi"
proof (induction "kid_ok m h (wfn m h)" es lo hi rule: chain.induct)
  case (1 lo hi)
  then show ?case by simp
next
  case (2 e lo hi)
  then obtain c where c: "hd (keys c) = ekey e" "wfn m h c lo hi"
    by (auto simp: kid_ok_def split: option.splits)
  show ?case using wfn_keys_ok[OF c(2)] c(1) by (auto simp: keys_ok_def)
next
  case (3 e e' es lo hi)
  then obtain c where c: "hd (keys c) = ekey e" "wfn m h c lo (Some (ekey e'))"
    by (auto simp: kid_ok_def split: option.splits)
  have IH: "keys_ok (ekey e' # map ekey es) (Some (ekey e')) hi" using 3 by simp
  have k1: "keys_ok (keys c) lo (Some (ekey e'))" using wfn_keys_ok[OF c(2)] .
  show ?case using IH k1 c(1) by (fastforce simp: keys_ok_def)
qed

lemma add_pages_apply:
  "add_pages m np ps q = (if np \<le> q \<and> q < np + length ps then Some (ps ! (q - np)) else m q)"
proof (induction ps arbitrary: m np)
  case Nil
  then show ?case by auto
next
  case (Cons p ps)
  show ?case unfolding add_pages.simps Cons.IH
    by (auto simp: nth_Cons' Suc_diff_le)
qed

lemma length_kid_ents [simp]: "length (kid_ents np ps) = length ps"
  by (induction ps arbitrary: np) auto

lemma kid_ents_append:
  "kid_ents np (ps @ qs) = kid_ents np ps @ kid_ents (np + length ps) qs"
  by (induction ps arbitrary: np) auto

lemma pieces_chain:
  assumes "wfn m h c lo hi" "concat (map ents ps) = ents c" "ps \<noteq> []"
    and "\<forall>p\<in>set ps. btype p = btype c \<and> node_full p \<and> ents p \<noteq> [] \<and> page_ok p"
    and "\<forall>q\<in>nptrs m h c. m' q = m q \<and> q < np"
    and "\<forall>j<length ps. m' (np + j) = Some (ps ! j)"
  shows "chain (kid_ok m' h (wfn m' h)) (kid_ents np ps) lo hi
         \<and> disj_list (map (subs m' h) (kid_ents np ps))
         \<and> (\<Union>e\<in>set (kid_ents np ps). subs m' h e) = {np..<np + length ps} \<union> nptrs m h c"
  using assms
proof (induction ps arbitrary: c np lo)
  case Nil
  then show ?case by simp
next
  case (Cons p ps)
  have p: "btype p = btype c" "node_full p" "ents p \<noteq> []" "page_ok p"
    using Cons.prems(4) by simp_all
  have mp: "m' np = Some p" using Cons.prems(6) by fastforce
  show ?case
  proof (cases ps)
    case Nil
    have e: "ents p = ents c" using Cons.prems(2) Nil by simp
    have nk: "nkeys p = nkeys c" using p(2) wfn_full[OF Cons.prems(1)] e by (simp add: node_full_def)
    have w: "wfn m h p lo hi" using Cons.prems(1) wfn_cong[OF p(1) e nk] by simp
    have np: "nptrs m h p = nptrs m h c" using nptrs_cong[OF e] .
    have fr: "nptrs m' h p = nptrs m h p \<and> wfn m' h p lo hi = wfn m h p lo hi"
      using frame[where m = m and h = h and n = p and m' = m' and lo = lo and hi = hi] Cons.prems(5) np by simp
    have notin: "np \<notin> nptrs m h c" using Cons.prems(5) by auto
    show ?thesis using Nil mp p(4) w fr np notin
      by (auto simp: kid_ok_def subs_def)
  next
    case (Cons p' ps')
    let ?rest = "concat (map ents ps)"
    let ?c2 = "c\<lparr>ents := ?rest, nkeys := length ?rest\<rparr>"
    have p': "btype p' = btype c" "node_full p'" "ents p' \<noteq> []" "page_ok p'"
      using Cons.prems(4) Cons by simp_all
    have rest: "?rest \<noteq> []" "hd ?rest = hd (ents p')" using Cons p'(3) by simp_all
    have dec: "ents c = ents p @ ents ?c2" using Cons.prems(2) by simp
    have lt: "length ?rest < 65536"
      using wfn_full[OF Cons.prems(1)] dec by (simp add: node_full_def)
    have sp: "wfn m h p lo (Some (ekey (hd (ents p'))))" "wfn m h ?c2 (Some (ekey (hd (ents p')))) hi"
         "nptrs m h p \<inter> nptrs m h ?c2 = {}" "nptrs m h c = nptrs m h p \<union> nptrs m h ?c2"
      using wfn_split2[OF Cons.prems(1) dec p(3) _ p(1,2)] rest lt
      by (simp_all add: node_full_def)
    have hk: "hd (keys p') = ekey (hd (ents p'))" using p'(3) by (simp add: keys_def hd_map)
    have IH: "chain (kid_ok m' h (wfn m' h)) (kid_ents (Suc np) ps) (Some (ekey (hd (ents p')))) hi
         \<and> disj_list (map (subs m' h) (kid_ents (Suc np) ps))
         \<and> (\<Union>e\<in>set (kid_ents (Suc np) ps). subs m' h e) = {Suc np..<Suc np + length ps} \<union> nptrs m h ?c2"
    proof (rule Cons.IH[OF sp(2)])
      show "concat (map ents ps) = ents ?c2" by simp
      show "ps \<noteq> []" using Cons by simp
      show "\<forall>p\<in>set ps. btype p = btype ?c2 \<and> node_full p \<and> ents p \<noteq> [] \<and> page_ok p"
        using Cons.prems(4) by simp
      show "\<forall>q\<in>nptrs m h ?c2. m' q = m q \<and> q < Suc np"
        using Cons.prems(5) sp(4) less_SucI by blast
      show "\<forall>j<length ps. m' (Suc np + j) = Some (ps ! j)"
        using Cons.prems(6) by fastforce
    qed
    have fr: "nptrs m' h p = nptrs m h p \<and> wfn m' h p lo (Some (ekey (hd (ents p')))) = wfn m h p lo (Some (ekey (hd (ents p'))))"
      using frame[where m = m and h = h and n = p and m' = m' and lo = lo and hi = "Some (ekey (hd (ents p')))"] Cons.prems(5) sp(4) by simp
    have notin: "np \<notin> nptrs m h c" using Cons.prems(5) by auto
    have k1: "kid_ok m' h (wfn m' h) (np, hd (keys p), []) lo (Some (ekey (hd (ents p'))))"
      using mp p(4) sp(1) fr notin sp(4) by (auto simp: kid_ok_def)
    have s1: "subs m' h (np, hd (keys p), []) = {np} \<union> nptrs m h p"
      using mp fr by (simp add: subs_def)
    have below: "\<forall>q\<in>nptrs m h p. q < np" using Cons.prems(5) sp(4) by auto
    have d1: "\<forall>B\<in>set (map (subs m' h) (kid_ents (Suc np) ps)). subs m' h (np, hd (keys p), []) \<inter> B = {}"
    proof
      fix B assume "B \<in> set (map (subs m' h) (kid_ents (Suc np) ps))"
      then have "B \<subseteq> {Suc np..<Suc np + length ps} \<union> nptrs m h ?c2" using IH by auto
      moreover have "({np} \<union> nptrs m h p) \<inter> ({Suc np..<Suc np + length ps} \<union> nptrs m h ?c2) = {}"
        using sp(3) below notin sp(4) by auto
      ultimately show "subs m' h (np, hd (keys p), []) \<inter> B = {}" unfolding s1 by blast
    qed
    have u: "{np..<np + length (p # ps)} = insert np {Suc np..<Suc np + length ps}" by auto
    have ch: "chain (kid_ok m' h (wfn m' h)) (kid_ents np (p # ps)) lo hi"
      using k1 IH hk Cons by simp
    have dl: "disj_list (map (subs m' h) (kid_ents np (p # ps)))"
      using d1 IH by simp
    have un: "(\<Union>e\<in>set (kid_ents np (p # ps)). subs m' h e) = {np..<np + length (p # ps)} \<union> nptrs m h c"
      unfolding u sp(4) using IH s1 by auto
    show ?thesis using ch dl un by blast
  qed
qed

lemma le_pos_sorted:
  assumes "sorted_wrt (<) (tl ks)" "i < length ks"
  shows "le_pos ks k i \<longleftrightarrow> ((1 \<le> i \<longrightarrow> ks ! i \<le> k) \<and> (i + 1 < length ks \<longrightarrow> k < ks ! (i + 1)))"
proof -
  define X where "X = take i ks"
  define y where "y = ks ! i"
  define Z where "Z = drop (i + 1) ks"
  have dec: "X @ y # Z = ks" using id_take_nth_drop[OF assms(2)] by (simp add: X_def y_def Z_def)
  have l: "length X = i" using assms(2) by (simp add: X_def)
  have "sorted_wrt (<) (tl (X @ y # Z))" using assms(1) dec by simp
  then have "le_pos (X @ y # Z) k (length X) \<longleftrightarrow> ((X \<noteq> [] \<longrightarrow> y \<le> k) \<and> (Z \<noteq> [] \<longrightarrow> k < hd Z))"
    by (rule le_pos_decomp)
  then have a: "le_pos ks k i \<longleftrightarrow> ((X \<noteq> [] \<longrightarrow> y \<le> k) \<and> (Z \<noteq> [] \<longrightarrow> k < hd Z))"
    by (simp only: dec l)
  have b: "X \<noteq> [] \<longleftrightarrow> 1 \<le> i" using l by (cases X) auto
  have c: "Z \<noteq> [] \<longleftrightarrow> i + 1 < length ks" by (simp add: Z_def not_le)
  have d: "i + 1 < length ks \<Longrightarrow> hd Z = ks ! (i + 1)"
    by (simp add: Z_def hd_drop_conv_nth)
  show ?thesis unfolding a b c y_def using d by auto
qed

lemma sorted_tl_nth:
  "sorted_wrt (<) (tl ks) \<Longrightarrow> 1 \<le> i \<Longrightarrow> i < j \<Longrightarrow> j < length ks \<Longrightarrow> ks ! i < ks ! j"
proof -
  assume a: "sorted_wrt (<) (tl ks)" "1 \<le> i" "i < j" "j < length ks"
  then have "tl ks ! (i - 1) < tl ks ! (j - 1)"
    using sorted_wrt_nth_less[of "(<)" "tl ks" "i - 1" "j - 1"] by auto
  then show ?thesis using a by (simp add: nth_tl)
qed

lemma sorted_tl_app2:
  "sorted_wrt (<) (tl (K1 @ K2)) \<Longrightarrow> K1 \<noteq> [] \<Longrightarrow> sorted_wrt (<) (tl K1) \<and> sorted_wrt (<) K2"
  by (cases K1) (simp_all add: sorted_wrt_append)

lemma le_pos_split:
  assumes s: "sorted_wrt (<) (tl (K1 @ K2))" and ne: "K1 \<noteq> []" "K2 \<noteq> []"
    and lp: "le_pos (K1 @ K2) k i"
  shows "(i < length K1 \<and> le_pos K1 k i \<and> k < hd K2)
         \<or> (length K1 \<le> i \<and> le_pos K2 k (i - length K1) \<and> hd K2 \<le> k)"
proof -
  define ks where "ks = K1 @ K2"
  define n1 where "n1 = length K1"
  have s': "sorted_wrt (<) (tl ks)" using s by (simp add: ks_def)
  have i: "i < length ks" using lp by (simp add: le_pos_def ks_def)
  have lk: "length ks = n1 + length K2" by (simp add: ks_def n1_def)
  have c1: "1 \<le> i \<Longrightarrow> ks ! i \<le> k" and c2: "i + 1 < length ks \<Longrightarrow> k < ks ! (i + 1)"
    using le_pos_sorted[OF s' i, of k] lp by (simp_all add: ks_def)
  have s1: "sorted_wrt (<) (tl K1)" and s2: "sorted_wrt (<) (tl K2)"
    using sorted_tl_app2[OF s ne(1)] by (simp, cases K2, simp_all)
  have l1: "1 \<le> n1" using ne by (cases K1) (auto simp: n1_def)
  have l2: "1 \<le> length K2" using ne by (cases K2) auto
  have left: "j < n1 \<Longrightarrow> ks ! j = K1 ! j" for j by (simp add: ks_def n1_def nth_append)
  have right: "n1 \<le> j \<Longrightarrow> ks ! j = K2 ! (j - n1)" for j by (simp add: ks_def n1_def nth_append)
  have h2: "hd K2 = ks ! n1" using ne right[of n1] by (simp add: hd_conv_nth)
  have n1l: "n1 < length ks" using lk l2 by linarith
  show ?thesis
  proof (cases "i < n1")
    case True
    have a: "1 \<le> i \<Longrightarrow> K1 ! i \<le> k" using c1 left[OF True] by simp
    have b: "k < K1 ! (i + 1)" if "i + 1 < n1"
      using c2 left[OF that] that lk by simp
    have "le_pos K1 k i" using le_pos_sorted[OF s1, of i k] True a b by (simp add: n1_def)
    moreover have "k < hd K2"
    proof (cases "i + 1 = n1")
      case True
      have "k < ks ! (i + 1)" using c2 True n1l by simp
      then show ?thesis using h2 True by simp
    next
      case False
      then have lt: "i + 1 < n1" using True by simp
      have "ks ! (i + 1) < ks ! n1"
        using sorted_tl_nth[OF s', of "i + 1" n1] lt n1l by simp
      moreover have "k < ks ! (i + 1)" using c2 lt n1l by simp
      ultimately show ?thesis using h2 by simp
    qed
    ultimately show ?thesis using True by (simp add: n1_def)
  next
    case False
    then have ge: "n1 \<le> i" by simp
    have i2: "i - n1 < length K2" using i ge lk by simp
    have i1: "1 \<le> i" using ge l1 by simp
    have a: "K2 ! (i - n1) \<le> k" using c1[OF i1] right[OF ge] by simp
    have b: "k < K2 ! (i - n1 + 1)" if "i - n1 + 1 < length K2"
    proof -
      have "i + 1 < length ks" using that lk ge by simp
      then have "k < ks ! (i + 1)" by (rule c2)
      moreover have "ks ! (i + 1) = K2 ! (i + 1 - n1)" using right[of "i + 1"] ge by simp
      moreover have "i + 1 - n1 = i - n1 + 1" using ge by simp
      ultimately show ?thesis by simp
    qed
    have "le_pos K2 k (i - n1)" using le_pos_sorted[OF s2 i2, of k] a b by simp
    moreover have "hd K2 \<le> k"
    proof (cases "i = n1")
      case True
      then show ?thesis using c1[OF i1] h2 by simp
    next
      case False
      then have "ks ! n1 < ks ! i"
        using sorted_tl_nth[OF s', of n1 i] ge i l1 by simp
      then show ?thesis using c1[OF i1] h2 by simp
    qed
    ultimately show ?thesis using ge by (simp add: n1_def)
  qed
qed

lemma sorted_wrt_tl: "sorted_wrt P xs \<Longrightarrow> sorted_wrt P (tl xs)"
  by (cases xs) simp_all

lemma finds_split2:
  assumes f: "finds m h c k v" and s: "sorted_wrt (<) (tl (keys c))"
    and dec: "ents c = ents p1 @ ents p2" "ents p1 \<noteq> []" "ents p2 \<noteq> []"
    and bt: "btype p1 = btype c" "btype p2 = btype c"
  shows "(finds m h p1 k v \<and> k < hd (keys p2)) \<or> (finds m h p2 k v \<and> hd (keys p2) \<le> k)"
proof -
  have k: "keys c = keys p1 @ keys p2" "keys p1 \<noteq> []" "keys p2 \<noteq> []"
    "length (keys p1) = length (ents p1)"
    using dec by (simp_all add: keys_def)
  obtain i where i: "le_pos (keys c) k i"
      "h = 0 \<longrightarrow> snd (ents c ! i) = (k, v)"
      "\<forall>h'. h = Suc h' \<longrightarrow> (\<exists>cc. m (fst (ents c ! i)) = Some cc \<and> finds m h' cc k v)"
    using f by (cases h) auto
  have bc: "h = 0 \<longrightarrow> btype c = BNODE_LEAF" "\<forall>h'. h = Suc h' \<longrightarrow> btype c = BNODE_NODE"
    using f by (cases h; simp)+
  consider (l) "i < length (keys p1)" "le_pos (keys p1) k i" "k < hd (keys p2)"
    | (r) "length (keys p1) \<le> i" "le_pos (keys p2) k (i - length (keys p1))" "hd (keys p2) \<le> k"
    using le_pos_split[OF _ k(2,3), of k i] s i(1) k(1) by auto
  then show ?thesis
  proof cases
    case l
    have "ents c ! i = ents p1 ! i" using l(1) k(4) dec(1) by (simp add: nth_append)
    then have "finds m h p1 k v" using i(2,3) l(2) bc bt by (cases h) auto
    then show ?thesis using l(3) by simp
  next
    case r
    have "ents c ! i = ents p2 ! (i - length (keys p1))" using r(1) k(4) dec(1) by (simp add: nth_append)
    then have "finds m h p2 k v" using i(2,3) r(2) bc bt by (cases h) auto
    then show ?thesis using r(3) by simp
  qed
qed

lemma pieces_finds:
  assumes "finds m h c k v" "sorted_wrt (<) (tl (keys c))" "concat (map ents ps) = ents c" "ps \<noteq> []"
    and "\<forall>p\<in>set ps. btype p = btype c \<and> ents p \<noteq> []"
  shows "\<exists>Ps p Qs. ps = Ps @ p # Qs \<and> finds m h p k v
            \<and> (Ps \<noteq> [] \<longrightarrow> hd (keys p) \<le> k) \<and> (Qs \<noteq> [] \<longrightarrow> k < hd (keys (hd Qs)))"
  using assms
proof (induction ps arbitrary: c)
  case Nil
  then show ?case by simp
next
  case (Cons p ps)
  have p: "btype p = btype c" "ents p \<noteq> []" using Cons.prems(5) by simp_all
  show ?case
  proof (cases ps)
    case Nil
    then have "ents p = ents c" using Cons.prems(3) by simp
    then have "finds m h p k v" using Cons.prems(1) finds_cong[OF p(1)] by simp
    then show ?thesis using Nil by (intro exI[of _ "[]"] exI[of _ p]) simp
  next
    case (Cons p' ps')
    let ?rest = "concat (map ents ps)"
    let ?c2 = "c\<lparr>ents := ?rest\<rparr>"
    have p': "btype p' = btype c" "ents p' \<noteq> []" using Cons.prems(5) Cons by simp_all
    have rest: "?rest \<noteq> []" "hd ?rest = hd (ents p')" using Cons p'(2) by simp_all
    have hk: "hd (keys ?c2) = hd (keys p')" using rest p'(2) by (simp add: keys_def hd_map)
    have dec: "ents c = ents p @ ents ?c2" using Cons.prems(3) by simp
    consider (l) "finds m h p k v" "k < hd (keys p')"
      | (r) "finds m h ?c2 k v" "hd (keys p') \<le> k"
      using finds_split2[OF Cons.prems(1,2) dec p(2) _ p(1)] rest hk by auto
    then show ?thesis
    proof cases
      case l
      then show ?thesis using Cons by (intro exI[of _ "[]"] exI[of _ p] exI[of _ ps]) simp
    next
      case r
      have s2: "sorted_wrt (<) (tl (keys ?c2))"
      proof -
        have "keys c = keys p @ keys ?c2" using dec by (simp add: keys_def)
        moreover have "keys p \<noteq> []" using p(2) by (simp add: keys_def)
        ultimately have "sorted_wrt (<) (keys ?c2)"
          using sorted_tl_app2[of "keys p" "keys ?c2"] Cons.prems(2) by simp
        then show ?thesis by (rule sorted_wrt_tl)
      qed
      obtain Ps q Qs where IH: "ps = Ps @ q # Qs" "finds m h q k v"
          "Ps \<noteq> [] \<longrightarrow> hd (keys q) \<le> k" "Qs \<noteq> [] \<longrightarrow> k < hd (keys (hd Qs))"
        using Cons.IH[OF r(1) s2] Cons.prems(5) Cons by auto
      have "hd (keys q) \<le> k"
      proof (cases Ps)
        case Nil
        then have "q = p'" using IH(1) Cons by simp
        then show ?thesis using r(2) by simp
      next
        case (Cons a list)
        then show ?thesis using IH(3) by simp
      qed
      then show ?thesis using IH
        by (intro exI[of _ "p # Ps"] exI[of _ q] exI[of _ Qs]) simp
    qed
  qed
qed

lemma finds_frame:
  "(\<And>q. q \<in> nptrs m h n \<Longrightarrow> m' q = m q) \<Longrightarrow> wfn m h n lo hi \<Longrightarrow> finds m' h n k v = finds m h n k v"
proof (induction h arbitrary: n lo hi)
  case 0
  then show ?case by simp
next
  case (Suc h)
  have full: "length (ents n) = length (keys n)" by (simp add: keys_def)
  have sub: "m' (fst (ents n ! i)) = m (fst (ents n ! i))
      \<and> (\<forall>c. m (fst (ents n ! i)) = Some c \<longrightarrow> finds m' h c k v = finds m h c k v)"
    if i: "i < length (ents n)" for i
  proof -
    let ?e = "ents n ! i"
    have e: "?e \<in> set (ents n)" using i by simp
    have a: "m' (fst ?e) = m (fst ?e)" using Suc.prems(1)[of "fst ?e"] e by auto
    have b: "finds m' h c k v = finds m h c k v" if c: "m (fst ?e) = Some c" for c
    proof -
      have sub: "nptrs m h c \<subseteq> nptrs m (Suc h) n" using e c by (auto intro!: bexI[of _ ?e])
      have "\<exists>l u. wfn m h c l u"
      proof -
        have ch: "chain (kid_ok m h (wfn m h)) (ents n) lo hi" using Suc.prems(2) by simp
        have "\<exists>l u. kid_ok m h (wfn m h) e' l u" if "e' \<in> set es" "chain (kid_ok m h (wfn m h)) es l0 u0" for e' es l0 u0
          using that(2,1) by (induction "kid_ok m h (wfn m h)" es l0 u0 rule: chain.induct) auto
        then obtain l u where "kid_ok m h (wfn m h) ?e l u" using e ch by blast
        then show ?thesis using c by (auto simp: kid_ok_def)
      qed
      then obtain l u where w: "wfn m h c l u" by blast
      show ?thesis using Suc.IH[OF _ w] Suc.prems(1) sub by blast
    qed
    show ?thesis using a b by simp
  qed
  have le: "le_pos (keys n) k i \<Longrightarrow> i < length (ents n)" for i by (simp add: le_pos_def keys_def)
  show ?case using sub le by (auto simp del: not_None_eq) (metis option.inject)+
qed

subsection \<open>The node built by nodeReplaceKidN\<close>

lemma kid_fit_key: "kid_fit p \<Longrightarrow> length (hd (keys p)) \<le> 1000"
  by (cases "ents p") (auto simp: kid_fit_def keys_def entries_ok_def entry_ok_def BTREE_MAX_KEY_SIZE_def)

lemma sum_kid_ents:
  "\<forall>p\<in>set kids. kid_fit p \<Longrightarrow> sum_list (map kvsize (kid_ents np kids)) \<le> 1004 * length kids"
proof (induction kids arbitrary: np)
  case Nil
  then show ?case by simp
next
  case (Cons p kids)
  have "kvsize (np, hd (keys p), []) \<le> 1004" using kid_fit_key[of p] Cons.prems by (simp add: kvsize_def)
  moreover have "sum_list (map kvsize (kid_ents (Suc np) kids)) \<le> 1004 * length kids"
    using Cons by simp
  ultimately show ?case by simp
qed

lemma appendKids_build:
  assumes "\<forall>p\<in>set kids. kid_fit p"
    and "\<forall>q\<ge>next_ptr pg. pages pg q = None"
    and "i = length (ents new)" "length (ents new) + length kids \<le> nkeys new"
        "csize new + 1004 * length kids \<le> dlen new" "dlen new < 65536"
  shows "appendKids pg new i kids
         = Some (new\<lparr>ents := ents new @ kid_ents (next_ptr pg) kids\<rparr>,
                 pg\<lparr>pages := add_pages (pages pg) (next_ptr pg) kids,
                    next_ptr := next_ptr pg + length kids\<rparr>)"
  using assms
proof (induction kids arbitrary: pg new i)
  case Nil
  then show ?case by simp
next
  case (Cons p kids)
  have P: "BTREE_PAGE_SIZE = 4096" by (simp add: BTREE_PAGE_SIZE_def)
  have p: "kid_fit p" using Cons.prems(1) by simp
  then have full: "length (ents p) = nkeys p" and ne: "ents p \<noteq> []" and sz: "esize (ents p) \<le> 4096"
    by (simp_all add: kid_fit_def node_full_def P)
  have nb: "nbytes p = Some (esize (ents p))" using nbytes_full[OF full] sz by simp
  let ?pg1 = "pg\<lparr>pages := (pages pg)(next_ptr pg \<mapsto> p), next_ptr := next_ptr pg + 1\<rparr>"
  have pn: "pager_new pg p = Some (next_ptr pg, ?pg1)"
    using nb sz Cons.prems(2) by (simp add: pager_new_def P)
  have gk: "getKey p 0 = Some (hd (keys p))"
    using full ne by (cases "ents p") (auto simp: getKey_def keys_def)
  have kv: "kvsize (next_ptr pg, hd (keys p), []) \<le> 1004" using kid_fit_key[OF p] by (simp add: kvsize_def)
  let ?new1 = "new\<lparr>ents := ents new @ [(next_ptr pg, hd (keys p), [])]\<rparr>"
  have ak: "nodeAppendKV new i (next_ptr pg) (hd (keys p)) [] = Some ?new1"
    using nodeAppendKV_build[where node = new and idx = i and ptr = "next_ptr pg" and key = "hd (keys p)" and val = "[]"]
      Cons.prems(3,4,5,6) kv by simp
  have IH: "appendKids ?pg1 ?new1 (i + 1) kids
         = Some (?new1\<lparr>ents := ents ?new1 @ kid_ents (next_ptr ?pg1) kids\<rparr>,
                 ?pg1\<lparr>pages := add_pages (pages ?pg1) (next_ptr ?pg1) kids,
                    next_ptr := next_ptr ?pg1 + length kids\<rparr>)"
  proof (rule Cons.IH)
    show "\<forall>p\<in>set kids. kid_fit p" using Cons.prems(1) by simp
    show "\<forall>q\<ge>next_ptr ?pg1. pages ?pg1 q = None" using Cons.prems(2) by simp
    show "i + 1 = length (ents ?new1)" using Cons.prems(3) by simp
    show "length (ents ?new1) + length kids \<le> nkeys ?new1" using Cons.prems(4) by simp
    show "csize ?new1 + 1004 * length kids \<le> dlen ?new1"
      using Cons.prems(5) kv by (simp add: csize_def)
    show "dlen ?new1 < 65536" using Cons.prems(6) by simp
  qed
  show ?case using pn gk ak IH by simp
qed

lemma getPtr_full:
  "length (ents node) = nkeys node \<Longrightarrow> i < nkeys node \<Longrightarrow> getPtr node i = Some (fst (ents node ! i))"
  by (simp add: getPtr_def)

lemma nodeReplaceKidN_build:
  assumes full: "length (ents old) = nkeys old" and size: "esize (ents old) \<le> BTREE_PAGE_SIZE"
    and idx: "idx < nkeys old"
    and kids: "\<forall>p\<in>set kids. kid_fit p" "1 \<le> length kids" "length kids \<le> 3"
    and fresh: "\<forall>q\<ge>next_ptr pg. pages pg q = None"
  shows "nodeReplaceKidN pg (make_node (2 * BTREE_PAGE_SIZE)) old idx kids
         = Some (\<lparr>dlen = 2 * BTREE_PAGE_SIZE, btype = BNODE_NODE, nkeys = nkeys old + length kids - 1,
                   ents = take idx (ents old) @ kid_ents (next_ptr pg) kids @ drop (idx + 1) (ents old)\<rparr>,
                 pg\<lparr>pages := add_pages (pages pg) (next_ptr pg) kids,
                    next_ptr := next_ptr pg + length kids\<rparr>)"
proof -
  let ?es = "ents old" and ?n = "nkeys old" and ?r = "length kids"
  have P: "BTREE_PAGE_SIZE = 4096" by (simp add: BTREE_PAGE_SIZE_def)
  have small: "esize ?es < 65536" using size P by simp
  have n: "10 * ?n + 4 \<le> 4096" using esize_nkeys[OF size] full by simp
  have sz: "4 + 10 * ?n + sum_list (map kvsize ?es) \<le> 4096" using size P full by (simp add: esize_def)
  have t: "sum_list (map kvsize (take idx ?es)) \<le> sum_list (map kvsize ?es)" by (rule sum_take_le)
  have d: "sum_list (map kvsize (take idx ?es)) + sum_list (map kvsize (drop (idx + 1) ?es)) \<le> sum_list (map kvsize ?es)"
  proof -
    have "sum_list (map kvsize (drop (idx + 1) ?es)) \<le> sum_list (map kvsize (drop idx ?es))"
      using sum_drop_le[of 1 "drop idx ?es"] by simp
    then show ?thesis using sum_take_drop[of idx ?es] by simp
  qed
  have sk: "sum_list (map kvsize (kid_ents (next_ptr pg) kids)) \<le> 1004 * ?r"
    using sum_kid_ents[OF kids(1)] .
  have hd: "sub16 (u16 (?n + ?r)) 1 = ?n + ?r - 1" using n kids(2,3) by simp
  let ?h = "\<lparr>dlen = 2 * BTREE_PAGE_SIZE, btype = BNODE_NODE, nkeys = ?n + ?r - 1, ents = []\<rparr>"
  let ?n1 = "?h\<lparr>ents := take idx ?es\<rparr>"
  let ?n2 = "?h\<lparr>ents := take idx ?es @ kid_ents (next_ptr pg) kids\<rparr>"
  let ?n3 = "?h\<lparr>ents := take idx ?es @ kid_ents (next_ptr pg) kids @ drop (idx + 1) ?es\<rparr>"
  let ?pg1 = "pg\<lparr>pages := add_pages (pages pg) (next_ptr pg) kids, next_ptr := next_ptr pg + ?r\<rparr>"
  have h: "setHeader (make_node (2 * BTREE_PAGE_SIZE)) BNODE_NODE (sub16 (u16 (?n + ?r)) 1) = ?h"
    unfolding hd by (simp add: setHeader_def make_node_def)
  have a1: "nodeAppendRange ?h old 0 0 idx = Some ?n1"
    using nodeAppendRange_build[OF full small, where src = 0 and n = idx and dst = 0 and new = ?h]
      idx t sz P kids(2,3)
    by (simp add: csize_def)
  have a2: "appendKids pg ?n1 idx kids = Some (?n2, ?pg1)"
    using appendKids_build[OF kids(1) fresh, where new = ?n1 and i = idx]
      idx full t sz P kids(2,3)
    by (simp add: csize_def min_def)
  have a3: "nodeAppendRange ?n2 old (idx + ?r) (idx + 1) (?n - (idx + 1)) = Some ?n3"
    using nodeAppendRange_build[OF full small, where src = "idx + 1" and n = "?n - (idx + 1)"
        and dst = "idx + ?r" and new = ?n2]
      idx full d sz sk P kids(2,3)
    by (simp add: csize_def min_def)
  have i16: "idx + 1 < 65536" "?n < 65536" "idx + ?r < 65536" using idx n kids(3) by simp_all
  show ?thesis
    unfolding nodeReplaceKidN_def Let_def h
    using a1 a2 a3 i16 idx by simp
qed

subsection \<open>treeInsert at an internal node\<close>

lemma chain_replace:
  assumes "Ks \<noteq> []"
  shows "chain Q (A @ Ks @ B) lo hi
         = (chain Q A lo (Some (ekey (hd Ks)))
            \<and> chain Q Ks (if A = [] then lo else Some (ekey (hd Ks))) (if B = [] then hi else Some (ekey (hd B)))
            \<and> chain Q B (Some (ekey (hd B))) hi)"
proof (cases "A = []")
  case True
  show ?thesis
  proof (cases "B = []")
    case True
    then show ?thesis using \<open>A = []\<close> by simp
  next
    case False
    then show ?thesis using \<open>A = []\<close> chain_append[OF assms False] by simp
  qed
next
  case False
  show ?thesis
  proof (cases "B = []")
    case True
    then show ?thesis using False chain_append[OF False assms] by simp
  next
    case B: False
    have "Ks @ B \<noteq> []" "hd (Ks @ B) = hd Ks" using assms by simp_all
    then show ?thesis
      using False B chain_append[OF False, of "Ks @ B" Q lo hi] chain_append[OF assms B, of Q "Some (ekey (hd Ks))" hi]
      by simp
  qed
qed

lemma chain_mid:
  "chain Q (A @ e # B) lo hi
   = (chain Q A lo (Some (ekey e))
      \<and> Q e (if A = [] then lo else Some (ekey e)) (if B = [] then hi else Some (ekey (hd B)))
      \<and> chain Q B (Some (ekey (hd B))) hi)"
  using chain_replace[of "[e]" Q A B lo hi] by simp

lemma kid_ok_frame:
  assumes "\<And>q. q \<in> subs m h e \<Longrightarrow> m' q = m q"
  shows "kid_ok m' h (wfn m' h) e l u = kid_ok m h (wfn m h) e l u \<and> subs m' h e = subs m h e"
proof (cases "m (fst e)")
  case None
  moreover have "m' (fst e) = m (fst e)" using assms[of "fst e"] by (simp add: subs_def)
  ultimately show ?thesis by (simp add: kid_ok_def subs_def)
next
  case (Some c)
  have a: "m' (fst e) = Some c" using assms[of "fst e"] Some by (simp add: subs_def)
  have "\<And>q. q \<in> nptrs m h c \<Longrightarrow> m' q = m q" using assms Some by (simp add: subs_def)
  then have "nptrs m' h c = nptrs m h c \<and> wfn m' h c l u = wfn m h c l u"
    using frame[where m = m and m' = m' and h = h and n = c and lo = l and hi = u] by blast
  then show ?thesis using a Some by (simp add: kid_ok_def subs_def)
qed

lemma wfn_replace:
  assumes wf: "wfn m (Suc h) node lo hi" and dec: "ents node = A @ e # B"
    and Ks: "Ks \<noteq> []" "A \<noteq> [] \<longrightarrow> ekey (hd Ks) = ekey e"
    and ch: "chain (kid_ok m' h (wfn m' h)) Ks (if A = [] then lo else Some (ekey e))
                 (if B = [] then hi else Some (ekey (hd B)))"
    and dj: "disj_list (map (subs m' h) Ks)"
    and agree: "\<And>e' q. e' \<in> set A \<union> set B \<Longrightarrow> q \<in> subs m h e' \<Longrightarrow> m' q = m q"
    and apart: "\<And>e' e''. e' \<in> set Ks \<Longrightarrow> e'' \<in> set A \<union> set B \<Longrightarrow> subs m' h e' \<inter> subs m h e'' = {}"
    and ok: "entries_ok Ks" "\<forall>e\<in>set Ks. snd (snd e) = []"
    and new: "btype new = BNODE_NODE" "node_full new" "ents new = A @ Ks @ B"
  shows "wfn m' (Suc h) new lo hi"
proof -
  let ?Q = "kid_ok m h (wfn m h)" and ?Q' = "kid_ok m' h (wfn m' h)"
  have fr: "?Q' e' l u = ?Q e' l u \<and> subs m' h e' = subs m h e'" if "e' \<in> set A \<union> set B" for e' l u
    using kid_ok_frame[of m h e' m' l u] agree[OF that] by blast
  have old: "chain ?Q (A @ e # B) lo hi" "disj_list (map (subs m h) (A @ e # B))"
    "entries_ok (A @ e # B)" "\<forall>x\<in>set (A @ e # B). snd (snd x) = []"
    using wf dec by simp_all
  have cA: "chain ?Q' A lo (Some (ekey (hd Ks)))"
  proof (cases "A = []")
    case True
    then show ?thesis by simp
  next
    case False
    have "chain ?Q A lo (Some (ekey e))" using old(1) unfolding chain_mid by simp
    moreover have "chain ?Q' A lo (Some (ekey e)) = chain ?Q A lo (Some (ekey e))"
      using fr by (intro chain_cong) simp
    ultimately show ?thesis using Ks(2) False by simp
  qed
  have cB: "chain ?Q' B (Some (ekey (hd B))) hi"
  proof -
    have "chain ?Q B (Some (ekey (hd B))) hi" using old(1) unfolding chain_mid by simp
    moreover have "chain ?Q' B (Some (ekey (hd B))) hi = chain ?Q B (Some (ekey (hd B))) hi"
      using fr by (intro chain_cong) simp
    ultimately show ?thesis by simp
  qed
  have ch': "chain ?Q' (A @ Ks @ B) lo hi"
    unfolding chain_replace[OF Ks(1)] using cA cB ch Ks(2) by auto
  have ko: "keys_ok (keys new) lo hi"
    using chain_keys_ok[OF ch'] Ks(1) new(3) by (simp add: keys_def comp_def)
  have mA: "map (subs m' h) A = map (subs m h) A" and mB: "map (subs m' h) B = map (subs m h) B"
    using fr by simp_all
  have dl: "disj_list (map (subs m' h) (A @ Ks @ B))"
  proof -
    have "disj_list (map (subs m h) A)" "disj_list (map (subs m h) B)"
      "\<forall>X\<in>set (map (subs m h) A). \<forall>Y\<in>set (map (subs m h) B). X \<inter> Y = {}"
      using old(2) by (simp_all add: disj_list_append)
    moreover have "\<forall>X\<in>set (map (subs m h) A). \<forall>Y\<in>set (map (subs m' h) Ks). X \<inter> Y = {}"
      using apart by fastforce
    moreover have "\<forall>X\<in>set (map (subs m' h) Ks). \<forall>Y\<in>set (map (subs m h) B). X \<inter> Y = {}"
      using apart by fastforce
    ultimately show ?thesis using dj by (simp add: disj_list_append mA mB) blast
  qed
  have eo: "entries_ok (A @ Ks @ B)" using old(3) ok(1) by (simp add: entries_ok_def)
  have vs: "\<forall>x\<in>set (A @ Ks @ B). snd (snd x) = []" using old(4) ok(2) by auto
  show ?thesis using new ko ch' dl eo vs by simp
qed

lemma esize_replace:
  "esize (A @ Ks @ B) + 10 + kvsize e = esize (A @ e # B) + 10 * length Ks + sum_list (map kvsize Ks)"
  by (simp add: esize_def)

lemma kvs_dlen [simp]: "kvs m h (c\<lparr>dlen := d\<rparr>) = kvs m h c"
  by (cases h) simp_all

lemma esize_map_snd: "map snd es = map snd es' \<Longrightarrow> esize es = esize es'"
proof -
  assume a: "map snd es = map snd es'"
  have f: "kvsize = (\<lambda>p. 4 + length (fst p) + length (snd p)) \<circ> snd"
    by (auto simp: kvsize_def fun_eq_iff)
  have "map kvsize es = map kvsize es'" unfolding f using a by (simp only: map_map[symmetric])
  moreover have "length es = length es'" using a by (metis length_map)
  ultimately show ?thesis by (simp add: esize_def)
qed

lemma kvs_Suc_mid:
  "kvs m (Suc h) n = concat (map (\<lambda>e. case m (fst e) of None \<Rightarrow> [] | Some c \<Rightarrow> kvs m h c) (ents n))"
  by simp

lemma kvs_entry_frame:
  assumes "\<And>q. q \<in> subs m h e \<Longrightarrow> m' q = m q"
  shows "(case m' (fst e) of None \<Rightarrow> [] | Some c \<Rightarrow> kvs m' h c)
         = (case m (fst e) of None \<Rightarrow> [] | Some c \<Rightarrow> kvs m h c)"
proof (cases "m (fst e)")
  case None
  moreover have "m' (fst e) = m (fst e)" using assms[of "fst e"] by (simp add: subs_def)
  ultimately show ?thesis by simp
next
  case (Some c)
  have a: "m' (fst e) = Some c" using assms[of "fst e"] Some by (simp add: subs_def)
  have "\<And>q. q \<in> nptrs m h c \<Longrightarrow> m' q = m q" using assms Some by (simp add: subs_def)
  then have "kvs m' h c = kvs m h c"
    using frame[where m = m and m' = m' and h = h and n = c] by blast
  then show ?thesis using a Some by simp
qed

lemma treeInsert_node:
  assumes IH: "\<And>pg c l u. wfn (pages pg) h c l u \<Longrightarrow> esize (ents c) \<le> BTREE_PAGE_SIZE
        \<Longrightarrow> \<forall>q\<ge>next_ptr pg. pages pg q = None
        \<Longrightarrow> \<forall>s. l = Some s \<longrightarrow> s \<le> k \<Longrightarrow> \<forall>w. u = Some w \<longrightarrow> k < w
        \<Longrightarrow> \<exists>new pg'. treeInsert pg c k v = Some (new, pg') \<and> ins_post (pages pg) h c l u pg k v new pg'"
    and wf: "wfn (pages pg) (Suc h) node lo hi" and size: "esize (ents node) \<le> BTREE_PAGE_SIZE"
    and fresh: "\<forall>q\<ge>next_ptr pg. pages pg q = None"
    and lo: "\<forall>s. lo = Some s \<longrightarrow> s \<le> k" and hi: "\<forall>u. hi = Some u \<longrightarrow> k < u"
  shows "\<exists>new pg'. treeInsert pg node k v = Some (new, pg')
            \<and> ins_post (pages pg) (Suc h) node lo hi pg k v new pg'"
proof -
  let ?m = "pages pg" and ?es = "ents node" and ?n = "nkeys node"
  let ?Q = "kid_ok ?m h (wfn ?m h)"
  have P: "BTREE_PAGE_SIZE = 4096" by (simp add: BTREE_PAGE_SIZE_def)
  have bt: "btype node = BNODE_NODE" and full: "length ?es = ?n" and n16: "?n < 65536"
    and eok: "entries_ok ?es" and kok: "keys_ok (keys node) lo hi"
    and vals: "\<forall>e\<in>set ?es. snd (snd e) = []"
    and ch: "chain ?Q ?es lo hi" and dj: "disj_list (map (subs ?m h) ?es)"
    using wf by (simp_all add: node_full_def)
  have ne: "1 \<le> ?n" using kok full by (cases ?es) (auto simp: keys_ok_def keys_def)
  obtain idx where idx: "nodeLookupLE node k = Some idx" "le_pos (keys node) k idx" "idx < ?n"
    using nodeLookupLE_ex[OF full ne] by blast
  define A where "A = take idx ?es"
  define e where "e = ?es ! idx"
  define B where "B = drop (idx + 1) ?es"
  have dec: "?es = A @ e # B" and lA: "length A = idx"
    using idx(3) full by (simp_all add: A_def e_def B_def id_take_nth_drop)
  define lo_i where "lo_i = (if A = [] then lo else Some (ekey e))"
  define hi_i where "hi_i = (if B = [] then hi else Some (ekey (hd B)))"
  define kptr where "kptr = fst e"
  have kid: "?Q e lo_i hi_i" using ch unfolding dec chain_mid lo_i_def hi_i_def by simp
  then obtain c where c: "?m kptr = Some c" "page_ok c" "hd (keys c) = ekey e"
      "wfn ?m h c lo_i hi_i" "kptr \<notin> nptrs ?m h c"
    by (auto simp: kid_ok_def kptr_def split: option.splits)
  have se: "subs ?m h e = {kptr} \<union> nptrs ?m h c" using c(1) by (simp add: subs_def kptr_def)
  \<comment> \<open>the key lies in the range of the child\<close>
  have kdec: "keys node = map ekey A @ ekey e # map ekey B"
    using dec by (simp add: keys_def comp_def)
  have srt: "sorted_wrt (<) (tl (map ekey A @ ekey e # map ekey B))"
    using kok kdec by (simp add: keys_ok_def)
  have pos: "(map ekey A \<noteq> [] \<longrightarrow> ekey e \<le> k) \<and> (map ekey B \<noteq> [] \<longrightarrow> k < hd (map ekey B))"
    using le_pos_decomp[OF srt, of k] idx(2) kdec lA by simp
  have loi: "\<forall>s. lo_i = Some s \<longrightarrow> s \<le> k" using pos lo by (simp add: lo_i_def)
  have hii: "\<forall>u. hi_i = Some u \<longrightarrow> k < u" using pos hi by (simp add: hi_i_def hd_map)
  \<comment> \<open>the child is read and its page freed\<close>
  have gp: "getPtr node idx = Some kptr" using getPtr_full[OF full idx(3)] by (simp add: kptr_def e_def)
  define pg1 where "pg1 = pg\<lparr>pages := (pages pg)(kptr := None)\<rparr>"
  let ?m1 = "pages pg1"
  have g1: "pager_get pg kptr = Some c" using c(1) by (simp add: pager_get_def)
  have d1: "pager_del pg kptr = Some pg1" using c(1) by (simp add: pager_del_def pg1_def)
  have ag1: "\<And>q. q \<in> nptrs ?m h c \<Longrightarrow> ?m1 q = ?m q" using c(5) by (auto simp: pg1_def)
  have fr1: "nptrs ?m1 h c = nptrs ?m h c" "wfn ?m1 h c lo_i hi_i" "kvs ?m1 h c = kvs ?m h c"
    using frame[where m = ?m and m' = ?m1 and h = h and n = c and lo = lo_i and hi = hi_i] ag1 c(4)
    by simp_all
  have ff1: "finds ?m1 h c k v = finds ?m h c k v"
    using finds_frame[where m = ?m and m' = ?m1, OF ag1 c(4)] by simp
  have fresh1: "\<forall>q\<ge>next_ptr pg1. pages pg1 q = None" using fresh by (simp add: pg1_def)
  have np1: "next_ptr pg1 = next_ptr pg" by (simp add: pg1_def)
  have csz: "esize (ents c) \<le> BTREE_PAGE_SIZE" using c(2) by (simp add: page_ok_def)
  obtain c' pg2 where rec: "treeInsert pg1 c k v = Some (c', pg2)"
      and post: "ins_post ?m1 h c lo_i hi_i pg1 k v c' pg2"
    using IH[OF fr1(2) csz fresh1 loi hii] by blast
  let ?m2 = "pages pg2"
  define np where "np = next_ptr pg2"
  have p2: "dlen c' = 2 * BTREE_PAGE_SIZE" "wfn ?m2 h c' lo_i hi_i"
      "esize (ents c') \<le> 2 * BTREE_PAGE_SIZE - 3" "next_ptr pg \<le> np"
      "\<forall>q\<ge>np. ?m2 q = None"
      "\<forall>q. q < next_ptr pg \<and> q \<notin> nptrs ?m h c \<longrightarrow> ?m2 q = ?m1 q"
      "nptrs ?m2 h c' \<subseteq> nptrs ?m h c \<union> {next_ptr pg..<np}"
      "finds ?m2 h c' k v"
      "finds ?m h c k v \<longrightarrow> kvs ?m2 h c' = kvs ?m h c \<and> map snd (ents c') = map snd (ents c)"
    using post unfolding ins_post_def np1 fr1 ff1 np_def by simp_all
  \<comment> \<open>the new child is split into pages\<close>
  have c'f: "node_full c'" "entries_ok (ents c')" "ents c' \<noteq> []" using wfn_full[OF p2(2)] by simp_all
  have c'n: "1 \<le> nkeys c'" using c'f by (cases "ents c'") (auto simp: node_full_def)
  obtain ps where ps: "nodeSplit3 c' = Some ps" "1 \<le> length ps" "length ps \<le> 3"
      "list_all (piece_ok c') ps" "concat (map ents ps) = ents c'"
      "\<forall>p\<in>set ps. ents p \<noteq> []"
      "esize (ents c') \<le> BTREE_PAGE_SIZE \<longrightarrow> ps = [c'\<lparr>dlen := BTREE_PAGE_SIZE\<rparr>]"
    using nodeSplit3_pieces[OF c'f(1,2) p2(3)] p2(1) c'n by auto
  have psne: "ps \<noteq> []" using ps(2) by auto
  have pok: "btype p = btype c' \<and> node_full p \<and> ents p \<noteq> [] \<and> page_ok p \<and> kid_fit p" if "p \<in> set ps" for p
  proof -
    have a: "piece_ok c' p" using ps(4) that by (simp add: list_all_iff)
    have "set (ents p) \<subseteq> set (ents c')" using ps(5)[symmetric] that by auto
    then have "entries_ok (ents p)" using c'f(2) by (auto simp: entries_ok_def list_all_iff)
    then show ?thesis using a ps(6) that by (simp add: piece_ok_def page_ok_def kid_fit_def)
  qed
  define Ks where "Ks = kid_ents np ps"
  define pg3 where "pg3 = pg2\<lparr>pages := add_pages ?m2 np ps, next_ptr := np + length ps\<rparr>"
  define N where "N = \<lparr>dlen = 2 * BTREE_PAGE_SIZE, btype = BNODE_NODE, nkeys = ?n + length ps - 1,
                        ents = A @ Ks @ B\<rparr>"
  let ?m3 = "pages pg3"
  have rk: "nodeReplaceKidN pg2 (make_node (2 * BTREE_PAGE_SIZE)) node idx ps = Some (N, pg3)"
    using nodeReplaceKidN_build[OF full size idx(3) _ ps(2,3), of pg2] pok p2(5)
    by (simp add: N_def pg3_def Ks_def A_def B_def np_def)
  have run: "treeInsert pg node k v = Some (N, pg3)"
    using idx(1) bt gp g1 d1 rec ps(1) rk
    by (subst treeInsert.simps) (simp add: BNODE_NODE_def BNODE_LEAF_def)
  \<comment> \<open>the store after the call\<close>
  have m3: "?m3 q = (if np \<le> q \<and> q < np + length ps then Some (ps ! (q - np)) else ?m2 q)" for q
    by (simp add: pg3_def add_pages_apply)
  have m3new: "\<forall>j<length ps. ?m3 (np + j) = Some (ps ! j)" by (simp add: m3)
  have stable: "?m3 q = ?m q" if "q < next_ptr pg" "q \<noteq> kptr" "q \<notin> nptrs ?m h c" for q
  proof -
    have "?m3 q = ?m2 q" using that(1) p2(4) by (simp add: m3)
    also have "\<dots> = ?m1 q" using p2(6) that by simp
    also have "\<dots> = ?m q" using that(2) by (simp add: pg1_def)
    finally show ?thesis .
  qed
  have below2: "q < np" if "q \<in> nptrs ?m2 h c'" for q
  proof -
    have "?m2 q \<noteq> None" using wfn_defined[OF p2(2) that] .
    then show ?thesis using p2(5) by (meson not_le)
  qed
  have pc: "chain (kid_ok ?m3 h (wfn ?m3 h)) Ks lo_i hi_i"
      "disj_list (map (subs ?m3 h) Ks)"
      "(\<Union>e\<in>set Ks. subs ?m3 h e) = {np..<np + length ps} \<union> nptrs ?m2 h c'"
  proof -
    have a: "\<forall>p\<in>set ps. btype p = btype c' \<and> node_full p \<and> ents p \<noteq> [] \<and> page_ok p"
      using pok by blast
    have b: "\<forall>q\<in>nptrs ?m2 h c'. ?m3 q = ?m2 q \<and> q < np"
      using below2 by (fastforce simp: m3)
    show "chain (kid_ok ?m3 h (wfn ?m3 h)) Ks lo_i hi_i"
      "disj_list (map (subs ?m3 h) Ks)"
      "(\<Union>e\<in>set Ks. subs ?m3 h e) = {np..<np + length ps} \<union> nptrs ?m2 h c'"
      using pieces_chain[OF p2(2) ps(5) psne a b m3new] by (simp_all add: Ks_def)
  qed
  have Ksne: "Ks \<noteq> []" using psne by (cases ps) (simp_all add: Ks_def)
  have hdK: "ekey (hd Ks) = hd (keys c')"
  proof -
    obtain p ps' where pp: "ps = p # ps'" using psne by (cases ps) auto
    have pne: "ents p \<noteq> []" using ps(6) pp by simp
    have "ents c' = ents p @ concat (map ents ps')" using ps(5) pp by simp
    then have "hd (ents c') = hd (ents p)" using pne by simp
    then have "hd (keys p) = hd (keys c')" using pne c'f(3) by (simp add: keys_def hd_map)
    then show ?thesis by (simp add: Ks_def pp)
  qed
  have hdA: "A \<noteq> [] \<longrightarrow> ekey (hd Ks) = ekey e"
    using wfn_keys_ok[OF p2(2)] hdK by (auto simp: lo_i_def keys_ok_def)
  \<comment> \<open>the siblings\<close>
  have sib: "subs ?m h e' \<inter> ({kptr} \<union> nptrs ?m h c) = {} \<and> (\<forall>q\<in>subs ?m h e'. q < next_ptr pg)"
    if "e' \<in> set A \<union> set B" for e'
  proof -
    have "subs ?m h e' \<inter> subs ?m h e = {}"
      using dj that unfolding dec by (auto simp: disj_list_append)
    moreover have "q < next_ptr pg" if q: "q \<in> subs ?m h e'" for q
    proof -
      have "q \<in> nptrs ?m (Suc h) node" unfolding nptrs_Suc dec using q \<open>e' \<in> set A \<union> set B\<close> by auto
      then have "?m q \<noteq> None" using wfn_defined[OF wf] by blast
      then show ?thesis using fresh by (meson not_le)
    qed
    ultimately show ?thesis using se by auto
  qed
  have agree: "?m3 q = ?m q" if "e' \<in> set A \<union> set B" "q \<in> subs ?m h e'" for e' q
    using sib[OF that(1)] that(2) by (intro stable) auto
  have apart: "subs ?m3 h e' \<inter> subs ?m h e'' = {}" if "e' \<in> set Ks" "e'' \<in> set A \<union> set B" for e' e''
  proof -
    have "next_ptr pg \<le> x \<or> x \<in> nptrs ?m h c" if x: "x \<in> subs ?m3 h e'" for x
    proof -
      have "x \<in> {np..<np + length ps} \<union> nptrs ?m2 h c'" using pc(3) x \<open>e' \<in> set Ks\<close> by blast
      then consider "np \<le> x" | "x \<in> nptrs ?m2 h c'" by auto
      then show ?thesis
      proof cases
        case 1
        then show ?thesis using p2(4) by simp
      next
        case 2
        then have "x \<in> nptrs ?m h c \<union> {next_ptr pg..<np}" using p2(7) by blast
        then show ?thesis by auto
      qed
    qed
    then show ?thesis using sib[OF that(2)] by fastforce
  qed
  have Kok: "entries_ok Ks" "\<forall>e\<in>set Ks. snd (snd e) = []"
  proof -
    have "\<forall>p\<in>set ps. kid_fit p \<Longrightarrow> entries_ok (kid_ents j ps) \<and> (\<forall>e\<in>set (kid_ents j ps). snd (snd e) = [])" for j
    proof (induction ps arbitrary: j)
      case Nil
      then show ?case by (simp add: entries_ok_def)
    next
      case (Cons p ps)
      then show ?case using kid_fit_key[of p]
        by (simp add: entries_ok_def entry_ok_def BTREE_MAX_KEY_SIZE_def)
    qed
    then show "entries_ok Ks" "\<forall>e\<in>set Ks. snd (snd e) = []" using pok by (simp_all add: Ks_def)
  qed
  have nN: "10 * ?n + 4 \<le> 4096" using esize_nkeys[OF size] full by simp
  have ln: "length A + length B + 1 = ?n" using full unfolding dec by simp
  have lN: "length (A @ Ks @ B) = ?n + length ps - 1" using ln ps(2) by (simp add: Ks_def)
  have lN16: "?n + length ps - 1 < 65536" using nN ps(3) by linarith
  have Nfull: "node_full N"
    using lN lN16 by (simp add: N_def node_full_def)
  have wN: "wfn ?m3 (Suc h) N lo hi"
    using wfn_replace[OF wf dec Ksne hdA _ pc(2) agree apart Kok, where new = N] pc(1) Nfull
    by (simp add: N_def lo_i_def hi_i_def)
  \<comment> \<open>sizes and the frame\<close>
  have szN: "esize (ents N) \<le> 2 * BTREE_PAGE_SIZE - 3"
  proof -
    have "sum_list (map kvsize Ks) \<le> 1004 * length ps"
      using sum_kid_ents[of ps np] pok by (simp add: Ks_def)
    moreover have "esize (A @ Ks @ B) + 10 + kvsize e = esize ?es + 10 * length Ks + sum_list (map kvsize Ks)"
      unfolding dec by (rule esize_replace)
    moreover have "length Ks = length ps" by (simp add: Ks_def)
    ultimately show ?thesis using size ps(3) P by (simp add: N_def)
  qed
  have np3: "next_ptr pg3 = np + length ps" by (simp add: pg3_def)
  have fresh3: "\<forall>q\<ge>next_ptr pg3. ?m3 q = None" using p2(5) by (simp add: np3 m3)
  have inN: "kptr \<in> nptrs ?m (Suc h) node" "nptrs ?m h c \<subseteq> nptrs ?m (Suc h) node"
    unfolding nptrs_Suc dec using se by auto
  have out: "\<forall>q. q < next_ptr pg \<and> q \<notin> nptrs ?m (Suc h) node \<longrightarrow> ?m3 q = ?m q"
    using stable inN by blast
  have subsAB: "subs ?m3 h e' = subs ?m h e'" if "e' \<in> set A \<union> set B" for e'
    using kid_ok_frame[of ?m h e' ?m3] agree[OF that] by blast
  have ptrsN: "nptrs ?m3 (Suc h) N \<subseteq> nptrs ?m (Suc h) node \<union> {next_ptr pg..<next_ptr pg3}"
  proof
    fix q assume "q \<in> nptrs ?m3 (Suc h) N"
    then obtain e' where e': "e' \<in> set A \<union> set Ks \<union> set B" "q \<in> subs ?m3 h e'"
      unfolding nptrs_Suc by (auto simp: N_def)
    show "q \<in> nptrs ?m (Suc h) node \<union> {next_ptr pg..<next_ptr pg3}"
    proof (cases "e' \<in> set Ks")
      case True
      then have "q \<in> {np..<np + length ps} \<union> nptrs ?m2 h c'" using pc(3) e'(2) by blast
      then consider "q \<in> {np..<np + length ps}" | "q \<in> nptrs ?m2 h c'" by blast
      then show ?thesis
      proof cases
        case 1
        then show ?thesis using p2(4) np3 by simp
      next
        case 2
        then have "q \<in> nptrs ?m h c \<union> {next_ptr pg..<np}" using p2(7) by blast
        then show ?thesis using inN(2) np3 by auto
      qed
    next
      case False
      then have ab: "e' \<in> set A \<union> set B" using e'(1) by blast
      then have "q \<in> subs ?m h e'" using subsAB e'(2) by simp
      then have "q \<in> nptrs ?m (Suc h) node" unfolding nptrs_Suc dec using ab by auto
      then show ?thesis by simp
    qed
  qed
  \<comment> \<open>the key is found below the new node\<close>
  have ag3: "\<And>q. q \<in> nptrs ?m2 h c' \<Longrightarrow> ?m3 q = ?m2 q" using below2 by (fastforce simp: m3)
  have f3: "finds ?m3 h c' k v"
    using finds_frame[where m = ?m2 and m' = ?m3, OF ag3 p2(2)] p2(8) by simp
  have srt': "sorted_wrt (<) (tl (keys c'))" using wfn_keys_ok[OF p2(2)] by (simp add: keys_ok_def)
  have pb: "\<forall>p\<in>set ps. btype p = btype c' \<and> ents p \<noteq> []" using pok by blast
  obtain Ps p Qs where loc: "ps = Ps @ p # Qs" "finds ?m3 h p k v"
      "Ps \<noteq> [] \<longrightarrow> hd (keys p) \<le> k" "Qs \<noteq> [] \<longrightarrow> k < hd (keys (hd Qs))"
    using pieces_finds[OF f3 srt' ps(5) psne pb] by blast
  define KP where "KP = kid_ents np Ps"
  define KQ where "KQ = kid_ents (Suc (np + length Ps)) Qs"
  define ke where "ke = (np + length Ps, hd (keys p), [] :: bytes)"
  have Kdec: "Ks = KP @ ke # KQ" by (simp add: Ks_def loc(1) kid_ents_append KP_def KQ_def ke_def)
  have lKP: "length KP = length Ps" by (simp add: KP_def)
  have mp: "?m3 (np + length Ps) = Some p" using m3new loc(1) by simp
  have fN: "finds ?m3 (Suc h) N k v"
  proof -
    let ?X = "map ekey A @ map ekey KP" and ?Z = "map ekey KQ @ map ekey B"
    have kN: "keys N = ?X @ hd (keys p) # ?Z"
      by (simp add: N_def keys_def Kdec comp_def ke_def)
    have sN: "sorted_wrt (<) (tl (?X @ hd (keys p) # ?Z))"
      using wfn_keys_ok[OF wN] kN by (simp add: keys_ok_def)
    have c1: "?X \<noteq> [] \<longrightarrow> hd (keys p) \<le> k"
    proof (cases "Ps = []")
      case True
      then have "hd Ks = ke" using Kdec by (simp add: KP_def)
      then have "ekey (hd Ks) = hd (keys p)" by (simp add: ke_def)
      then show ?thesis using True hdA pos by (auto simp: KP_def)
    next
      case False
      then show ?thesis using loc(3) by simp
    qed
    have c2: "?Z \<noteq> [] \<longrightarrow> k < hd ?Z"
    proof (cases Qs)
      case Nil
      then show ?thesis using pos by (simp add: KQ_def)
    next
      case (Cons q' Qs')
      then show ?thesis using loc(4) by (simp add: KQ_def)
    qed
    have "le_pos (keys N) k (length ?X)"
      unfolding kN using le_pos_decomp[OF sN, of k] c1 c2 by blast
    moreover have "ents N ! (length ?X) = ke"
      using lA by (simp add: N_def Kdec nth_append)
    ultimately show ?thesis using mp loc(2) by (auto simp: N_def ke_def)
  qed
  \<comment> \<open>a key already stored with this value leaves the contents as they are\<close>
  have same: "kvs ?m3 (Suc h) N = kvs ?m (Suc h) node \<and> map snd (ents N) = map snd ?es"
    if fo: "finds ?m (Suc h) node k v"
  proof -
    obtain i cc where i: "le_pos (keys node) k i" "?m (fst (?es ! i)) = Some cc" "finds ?m h cc k v"
      using fo by auto
    have "i = idx" using le_pos_unique[OF i(1) idx(2)] .
    then have "cc = c" using i(2) c(1) by (simp add: e_def[symmetric] kptr_def)
    then have fc: "finds ?m h c k v" using i(3) by simp
    have eq: "kvs ?m2 h c' = kvs ?m h c" "map snd (ents c') = map snd (ents c)"
      using p2(9) fc by simp_all
    have "esize (ents c') = esize (ents c)" using esize_map_snd[OF eq(2)] .
    then have one: "ps = [c'\<lparr>dlen := BTREE_PAGE_SIZE\<rparr>]" using ps(7) csz by simp
    have "keys c' = keys c"
    proof -
      have "keys c' = map fst (map snd (ents c'))" by (simp add: keys_def)
      also have "\<dots> = map fst (map snd (ents c))" by (simp only: eq(2))
      finally show ?thesis by (simp add: keys_def)
    qed
    then have K1: "Ks = [(np, ekey e, [])]" using c(3) by (simp add: Ks_def one keys_def)
    have ev: "snd e = (ekey e, [])" using vals dec by (simp add: prod_eq_iff)
    have ms: "map snd (ents N) = map snd ?es" unfolding dec using ev by (simp add: N_def K1)
    let ?g = "\<lambda>(m :: nat \<Rightarrow> BNode option) (e :: entry). case m (fst e) of None \<Rightarrow> [] | Some c \<Rightarrow> kvs m h c"
    have gAB: "?g ?m3 e' = ?g ?m e'" if "e' \<in> set A \<union> set B" for e'
      using kvs_entry_frame[of ?m h e' ?m3] agree[OF that] by blast
    have "?m3 np = Some (c'\<lparr>dlen := BTREE_PAGE_SIZE\<rparr>)" using m3new one by simp
    moreover have "kvs ?m3 h c' = kvs ?m2 h c'"
      using frame[where m = ?m2 and m' = ?m3 and h = h and n = c'] ag3 by blast
    ultimately have gK: "?g ?m3 (np, ekey e, []) = ?g ?m e"
      using eq(1) c(1) by (simp add: kptr_def)
    have "kvs ?m3 (Suc h) N = concat (map (?g ?m3) A) @ ?g ?m3 (np, ekey e, []) @ concat (map (?g ?m3) B)"
      by (simp add: N_def K1)
    also have "\<dots> = concat (map (?g ?m) A) @ ?g ?m e @ concat (map (?g ?m) B)"
      using gAB gK by (simp cong: map_cong)
    also have "\<dots> = kvs ?m (Suc h) node" unfolding kvs_Suc_mid dec by simp
    finally show ?thesis using ms by simp
  qed
  have "ins_post ?m (Suc h) node lo hi pg k v N pg3"
    unfolding ins_post_def
    using wN szN p2(4) np3 fresh3 out ptrsN fN same by (simp add: N_def)
  then show ?thesis using run by blast
qed

subsection \<open>Insert\<close>

lemma node_height_wfn:
  "wfn (pages pg) h n lo hi \<Longrightarrow> node_height pg n = Some h"
proof (induction h arbitrary: n lo hi)
  case 0
  then show ?case by (subst node_height.simps) simp
next
  case (Suc h)
  have bt: "btype n = BNODE_NODE" and full: "node_full n" and ne: "ents n \<noteq> []"
    and ch: "chain (kid_ok (pages pg) h (wfn (pages pg) h)) (ents n) lo hi"
    using Suc.prems wfn_full[OF Suc.prems] by simp_all
  obtain e B where eB: "ents n = e # B" using ne by (cases "ents n") auto
  have "kid_ok (pages pg) h (wfn (pages pg) h) e lo (if B = [] then hi else Some (ekey (hd B)))"
    using ch chain_mid[of _ "[]" e B lo hi] unfolding eB by simp
  then obtain c u where c: "pages pg (fst e) = Some c" "wfn (pages pg) h c lo u"
    by (auto simp: kid_ok_def split: option.splits)
  have gp: "getPtr n 0 = Some (fst e)" using full eB by (simp add: getPtr_def node_full_def)
  have "node_height pg c = Some h" using Suc.IH[OF c(2)] .
  then show ?case using bt gp c(1)
    by (subst node_height.simps) (simp add: pager_get_def BNODE_NODE_def BNODE_LEAF_def)
qed

lemma finds_in_kvs: "finds m h n k v \<Longrightarrow> (k, v) \<in> set (kvs m h n)"
proof (induction h arbitrary: n)
  case 0
  then obtain i where "le_pos (keys n) k i" "snd (ents n ! i) = (k, v)" by auto
  moreover then have "i < length (ents n)" by (simp add: le_pos_def keys_def)
  ultimately show ?case by (auto simp: in_set_conv_nth intro!: image_eqI[of _ snd "ents n ! i"])
next
  case (Suc h)
  then obtain i c where i: "le_pos (keys n) k i" "m (fst (ents n ! i)) = Some c" "finds m h c k v" by auto
  have "i < length (ents n)" using i(1) by (simp add: le_pos_def keys_def)
  then have "ents n ! i \<in> set (ents n)" by simp
  moreover have "(k, v) \<in> set (kvs m h c)" using Suc.IH[OF i(3)] .
  ultimately show ?case using i(2) by (auto intro!: bexI[of _ "ents n ! i"])
qed

lemma treeInsert_spec:
  assumes lim: "length k \<le> BTREE_MAX_KEY_SIZE" "length v \<le> BTREE_MAX_VAL_SIZE"
  shows "wfn (pages pg) h node lo hi \<Longrightarrow> esize (ents node) \<le> BTREE_PAGE_SIZE
     \<Longrightarrow> \<forall>q\<ge>next_ptr pg. pages pg q = None
     \<Longrightarrow> \<forall>s. lo = Some s \<longrightarrow> s \<le> k \<Longrightarrow> \<forall>u. hi = Some u \<longrightarrow> k < u
     \<Longrightarrow> \<exists>new pg'. treeInsert pg node k v = Some (new, pg')
            \<and> ins_post (pages pg) h node lo hi pg k v new pg'"
proof (induction h arbitrary: pg node lo hi)
  case 0
  show ?case using treeInsert_leaf[OF 0(1,2,4,5) lim 0(3)] by blast
next
  case (Suc h)
  show ?case by (rule treeInsert_node[OF Suc.IH Suc.prems])
qed


text \<open>
  Claim C4. For every well-formed node produced by an insert (size at most \<open>2P\<close>, at
  least 2 keys if oversized), \<^verbatim>\<open>nodeSplit3\<close> returns between 1 and 3 nodes, each of
  encoded size at most \<open>P = 4096\<close> bytes, whose key/value sequences concatenated in
  order are exactly the key/value sequence of the input node. The nodes produced by an
  insert are the results of \<^verbatim>\<open>treeInsert\<close> on a well-formed node of a tree, for a key
  in the range of the node and a key and a value within the limits; \<^verbatim>\<open>nodeSplit3\<close>
  is called on these only (in \<^verbatim>\<open>Insert\<close> and in \<^verbatim>\<open>nodeInsert\<close>).
\<close>

theorem nodeSplit3_partition:
  assumes wf: "wfn (pages pg) h node lo hi" and size: "esize (ents node) \<le> BTREE_PAGE_SIZE"
    and fresh: "\<forall>q\<ge>next_ptr pg. pages pg q = None"
    and lo: "\<forall>s. lo = Some s \<longrightarrow> s \<le> k" and hi: "\<forall>u. hi = Some u \<longrightarrow> k < u"
    and lim: "length k \<le> BTREE_MAX_KEY_SIZE" "length v \<le> BTREE_MAX_VAL_SIZE"
    and ins: "treeInsert pg node k v = Some (new, pg')"
  shows "esize (ents new) \<le> 2 * BTREE_PAGE_SIZE
         \<and> (BTREE_PAGE_SIZE < esize (ents new) \<longrightarrow> 2 \<le> nkeys new)
         \<and> (\<exists>pieces. nodeSplit3 new = Some pieces \<and> 1 \<le> length pieces \<and> length pieces \<le> 3
               \<and> list_all (piece_ok new) pieces
               \<and> concat (map ents pieces) = ents new)"
proof -
  have P: "BTREE_PAGE_SIZE = 4096" by (simp add: BTREE_PAGE_SIZE_def)
  obtain new' pg'' where r: "treeInsert pg node k v = Some (new', pg'')"
      "ins_post (pages pg) h node lo hi pg k v new' pg''"
    using treeInsert_spec[OF lim wf size fresh lo hi] by blast
  then have post: "ins_post (pages pg) h node lo hi pg k v new pg'" using ins by simp
  have d: "dlen new = 2 * BTREE_PAGE_SIZE" and w: "wfn (pages pg') h new lo hi"
    and s: "esize (ents new) \<le> 2 * BTREE_PAGE_SIZE - 3"
    using post by (simp_all add: ins_post_def)
  have f: "node_full new" "entries_ok (ents new)" using wfn_full[OF w] by simp_all
  have two: "2 \<le> nkeys new" if "BTREE_PAGE_SIZE < esize (ents new)"
    using esize_small_nkeys[OF f(2)] that f(1) P by (simp add: node_full_def)
  have "\<exists>pieces. nodeSplit3 new = Some pieces \<and> 1 \<le> length pieces \<and> length pieces \<le> 3
               \<and> list_all (piece_ok new) pieces \<and> concat (map ents pieces) = ents new"
    using nodeSplit3_pieces[OF f s] d by auto
  then show ?thesis using s two by auto
qed

lemma length_val56 [simp]: "length val5 = 2000" "length val6 = 2000"
  by (simp_all add: val5_def val6_def)

theorem nodeSplit3_partition_witness:
  "wfn (pages pager0) 0 leaf_ac None None \<and> esize (ents leaf_ac) \<le> BTREE_PAGE_SIZE
   \<and> treeInsert pager0 leaf_ac [98] val8 = Some (leaf_abc, pager0)
   \<and> map ents (the (nodeSplit3 leaf_abc))
       = [[(0, [], []), (0, [97], val5)], [(0, [98], val8)], [(0, [99], val6)]]
   \<and> list_all (piece_ok leaf_abc) (the (nodeSplit3 leaf_abc))"
proof -
  have a: "wfn (pages pager0) 0 leaf_ac None None"
    by (simp add: leaf_ac_def node_full_def entries_ok_def entry_ok_def keys_ok_def keys_def
        BNODE_LEAF_def BTREE_MAX_KEY_SIZE_def BTREE_MAX_VAL_SIZE_def)
  have b: "esize (ents leaf_ac) \<le> BTREE_PAGE_SIZE"
    by (simp add: leaf_ac_def esize_def kvsize_def BTREE_PAGE_SIZE_def)
  have c: "\<forall>q\<ge>next_ptr pager0. pages pager0 q = None" by (simp add: pager0_def)
  have l: "length [98 :: byte] \<le> BTREE_MAX_KEY_SIZE" "length val8 \<le> BTREE_MAX_VAL_SIZE"
    by (simp_all add: BTREE_MAX_KEY_SIZE_def BTREE_MAX_VAL_SIZE_def)
  have t: "treeInsert pager0 leaf_ac [98] val8 = Some (leaf_abc, pager0)"
    by (simp add: treeInsert.simps leaf_ac_def leaf_abc_def node_defs)
  have e: "map ents (the (nodeSplit3 leaf_abc))
       = [[(0, [], []), (0, [97], val5)], [(0, [98], val8)], [(0, [99], val6)]]"
    by (simp add: leaf_abc_def node_defs split_defs)
  from nodeSplit3_partition[OF a b c _ _ l t]
  have "list_all (piece_ok leaf_abc) (the (nodeSplit3 leaf_abc))" by auto
  then show ?thesis using a b t e by simp
qed

lemma kid_ents_ok:
  "\<forall>p\<in>set ps. kid_fit p \<Longrightarrow> entries_ok (kid_ents j ps) \<and> (\<forall>e\<in>set (kid_ents j ps). snd (snd e) = [])"
proof (induction ps arbitrary: j)
  case Nil
  then show ?case by (simp add: entries_ok_def)
next
  case (Cons p ps)
  then show ?case using kid_fit_key[of p]
    by (simp add: entries_ok_def entry_ok_def BTREE_MAX_KEY_SIZE_def)
qed

lemma checkLimit_None:
  "checkLimit k v = None \<longleftrightarrow> length k \<le> BTREE_MAX_KEY_SIZE \<and> length v \<le> BTREE_MAX_VAL_SIZE"
  by (simp add: checkLimit_def)

lemma Insert_empty:
  assumes lim: "length k \<le> BTREE_MAX_KEY_SIZE" "length v \<le> BTREE_MAX_VAL_SIZE"
    and fresh: "\<forall>q\<ge>next_ptr pg. pages pg q = None" and pos: "1 \<le> next_ptr pg"
  shows "\<exists>r' pg' node'. Insert \<lparr>root = 0, pager = pg\<rparr> k v = Some (None, \<lparr>root = r', pager = pg'\<rparr>)
           \<and> r' \<noteq> 0 \<and> (\<forall>q\<ge>next_ptr pg'. pages pg' q = None)
           \<and> root_ok pg' r' 0 node' \<and> finds (pages pg') 0 node' k v"
proof -
  have P: "BTREE_PAGE_SIZE = 4096" by (simp add: BTREE_PAGE_SIZE_def)
  have l: "length k \<le> 1000" "length v \<le> 3000"
    using lim by (simp_all add: BTREE_MAX_KEY_SIZE_def BTREE_MAX_VAL_SIZE_def)
  let ?h = "\<lparr>dlen = BTREE_PAGE_SIZE, btype = BNODE_LEAF, nkeys = 2, ents = []\<rparr>"
  let ?r1 = "?h\<lparr>ents := [(0, [], [])]\<rparr>"
  let ?r2 = "?h\<lparr>ents := [(0, [], []), (0, k, v)]\<rparr>"
  let ?pg' = "pg\<lparr>pages := (pages pg)(next_ptr pg \<mapsto> ?r2), next_ptr := next_ptr pg + 1\<rparr>"
  have h: "setHeader (make_node BTREE_PAGE_SIZE) BNODE_LEAF 2 = ?h"
    by (simp add: setHeader_def make_node_def)
  have a1: "nodeAppendKV ?h 0 0 [] [] = Some ?r1"
    using nodeAppendKV_build[where node = ?h and idx = 0 and ptr = 0 and key = "[]" and val = "[]"] P
    by (simp add: csize_def kvsize_def)
  have a2: "nodeAppendKV ?r1 1 0 k v = Some ?r2"
    using nodeAppendKV_build[where node = ?r1 and idx = 1 and ptr = 0 and key = k and val = v] P l
    by (simp add: csize_def kvsize_def)
  have es: "esize (ents ?r2) = 32 + length k + length v" by (simp add: esize_def kvsize_def)
  have nb: "nbytes ?r2 = Some (esize (ents ?r2))" using nbytes_full[of ?r2] es l by simp
  have pn: "pager_new pg ?r2 = Some (next_ptr pg, ?pg')"
    using nb es l fresh P by (simp add: pager_new_def)
  have run: "Insert \<lparr>root = 0, pager = pg\<rparr> k v = Some (None, \<lparr>root = next_ptr pg, pager = ?pg'\<rparr>)"
    using lim a1 a2 pn by (simp add: Insert_def checkLimit_def h)
  have ko: "keys_ok (keys ?r2) None None" by (simp add: keys_ok_def keys_def)
  have w: "wfn (pages ?pg') 0 ?r2 None None"
    using ko lim by (simp add: node_full_def entries_ok_def entry_ok_def)
  have ro: "root_ok ?pg' (next_ptr pg) 0 ?r2"
    using w es l P by (simp add: root_ok_def page_ok_def)
  have lp: "le_pos (keys ?r2) k 1" by (simp add: le_pos_def keys_def)
  have f: "finds (pages ?pg') 0 ?r2 k v" using lp by (auto intro!: exI[of _ 1])
  show ?thesis using run ro f pos fresh by (intro exI[of _ "next_ptr pg"] exI[of _ ?pg'] exI[of _ ?r2]) simp
qed

lemma Insert_nonempty:
  assumes lim: "length k \<le> BTREE_MAX_KEY_SIZE" "length v \<le> BTREE_MAX_VAL_SIZE"
    and fresh: "\<forall>q\<ge>next_ptr pg. pages pg q = None"
    and ro: "root_ok pg r h node" and r0: "r \<noteq> 0"
  shows "\<exists>r' pg' h' node'. Insert \<lparr>root = r, pager = pg\<rparr> k v = Some (None, \<lparr>root = r', pager = pg'\<rparr>)
           \<and> r' \<noteq> 0 \<and> (\<forall>q\<ge>next_ptr pg'. pages pg' q = None)
           \<and> root_ok pg' r' h' node' \<and> finds (pages pg') h' node' k v
           \<and> (finds (pages pg) h node k v \<longrightarrow> kvs (pages pg') h' node' = kvs (pages pg) h node)"
proof -
  let ?m = "pages pg"
  have P: "BTREE_PAGE_SIZE = 4096" by (simp add: BTREE_PAGE_SIZE_def)
  have n: "?m r = Some node" "page_ok node" "wfn ?m h node None None" "r \<notin> nptrs ?m h node"
    using ro by (simp_all add: root_ok_def)
  define pg1 where "pg1 = pg\<lparr>pages := (pages pg)(r := None)\<rparr>"
  let ?m1 = "pages pg1"
  have g1: "pager_get pg r = Some node" using n(1) by (simp add: pager_get_def)
  have d1: "pager_del pg r = Some pg1" using n(1) by (simp add: pager_del_def pg1_def)
  have ag1: "\<And>q. q \<in> nptrs ?m h node \<Longrightarrow> ?m1 q = ?m q" using n(4) by (auto simp: pg1_def)
  have fr1: "nptrs ?m1 h node = nptrs ?m h node" "wfn ?m1 h node None None" "kvs ?m1 h node = kvs ?m h node"
    using frame[where m = ?m and m' = ?m1 and h = h and n = node and lo = None and hi = None] ag1 n(3)
    by simp_all
  have ff1: "finds ?m1 h node k v = finds ?m h node k v"
    using finds_frame[where m = ?m and m' = ?m1, OF ag1 n(3)] by simp
  have fresh1: "\<forall>q\<ge>next_ptr pg1. pages pg1 q = None" using fresh by (simp add: pg1_def)
  have np1: "next_ptr pg1 = next_ptr pg" by (simp add: pg1_def)
  have csz: "esize (ents node) \<le> BTREE_PAGE_SIZE" using n(2) by (simp add: page_ok_def)
  obtain c' pg2 where rec: "treeInsert pg1 node k v = Some (c', pg2)"
      and post: "ins_post ?m1 h node None None pg1 k v c' pg2"
    using treeInsert_spec[OF lim fr1(2) csz fresh1] by blast
  let ?m2 = "pages pg2"
  define np where "np = next_ptr pg2"
  have p2: "dlen c' = 2 * BTREE_PAGE_SIZE" "wfn ?m2 h c' None None"
      "esize (ents c') \<le> 2 * BTREE_PAGE_SIZE - 3" "next_ptr pg \<le> np"
      "\<forall>q\<ge>np. ?m2 q = None"
      "finds ?m2 h c' k v"
      "finds ?m h node k v \<longrightarrow> kvs ?m2 h c' = kvs ?m h node \<and> map snd (ents c') = map snd (ents node)"
    using post unfolding ins_post_def np1 fr1 ff1 np_def by simp_all
  have c'f: "node_full c'" "entries_ok (ents c')" "ents c' \<noteq> []" using wfn_full[OF p2(2)] by simp_all
  have c'n: "1 \<le> nkeys c'" using c'f by (cases "ents c'") (auto simp: node_full_def)
  obtain ps where ps: "nodeSplit3 c' = Some ps" "1 \<le> length ps" "length ps \<le> 3"
      "list_all (piece_ok c') ps" "concat (map ents ps) = ents c'"
      "\<forall>p\<in>set ps. ents p \<noteq> []"
      "esize (ents c') \<le> BTREE_PAGE_SIZE \<longrightarrow> ps = [c'\<lparr>dlen := BTREE_PAGE_SIZE\<rparr>]"
    using nodeSplit3_pieces[OF c'f(1,2) p2(3)] p2(1) c'n by auto
  have psne: "ps \<noteq> []" using ps(2) by auto
  have pok: "btype p = btype c' \<and> node_full p \<and> ents p \<noteq> [] \<and> page_ok p \<and> kid_fit p" if "p \<in> set ps" for p
  proof -
    have a: "piece_ok c' p" using ps(4) that by (simp add: list_all_iff)
    have "set (ents p) \<subseteq> set (ents c')" using ps(5)[symmetric] that by auto
    then have "entries_ok (ents p)" using c'f(2) by (auto simp: entries_ok_def list_all_iff)
    then show ?thesis using a ps(6) that by (simp add: piece_ok_def page_ok_def kid_fit_def)
  qed
  have below2: "q < np" if "q \<in> nptrs ?m2 h c'" for q
  proof -
    have "?m2 q \<noteq> None" using wfn_defined[OF p2(2) that] .
    then show ?thesis using p2(5) by (meson not_le)
  qed
  have np0: "np \<noteq> 0"
  proof -
    have "\<not> next_ptr pg \<le> r" using n(1) fresh by auto
    then have "r < next_ptr pg" by simp
    then show ?thesis using p2(4) by simp
  qed
  have ckl: "checkLimit k v = None" using lim by (simp add: checkLimit_def)
  show ?thesis
  proof (cases "length ps > 1")
    case False
    then obtain p where p: "ps = [p]" using ps(2) by (cases ps) auto
    have pp: "btype p = btype c'" "node_full p" "page_ok p" "kid_fit p" "ents p = ents c'"
      using pok[of p] ps(5) p by simp_all
    define pg3 where "pg3 = pg2\<lparr>pages := ?m2(np \<mapsto> p), next_ptr := np + 1\<rparr>"
    let ?m3 = "pages pg3"
    have full: "length (ents p) = nkeys p" and sz: "esize (ents p) \<le> 4096"
      using pp(2,3) by (simp_all add: node_full_def page_ok_def P)
    have nb: "nbytes p = Some (esize (ents p))" using nbytes_full[OF full] sz by simp
    have pn: "pager_new pg2 p = Some (np, pg3)"
      using nb sz p2(5) by (simp add: pager_new_def P pg3_def np_def)
    have run: "Insert \<lparr>root = r, pager = pg\<rparr> k v = Some (None, \<lparr>root = np, pager = pg3\<rparr>)"
      using ckl r0 g1 d1 rec ps(1) pn p by (simp add: Insert_def)
    have nk: "nkeys p = nkeys c'" using pp(2,5) c'f(1) by (simp add: node_full_def)
    have w2: "wfn ?m2 h p None None" using p2(2) wfn_cong[OF pp(1,5) nk] by simp
    have np2: "nptrs ?m2 h p = nptrs ?m2 h c'" using nptrs_cong[OF pp(5)] .
    have ag3: "\<And>q. q \<in> nptrs ?m2 h p \<Longrightarrow> ?m3 q = ?m2 q"
      using below2 np2 by (fastforce simp: pg3_def)
    have fr3: "nptrs ?m3 h p = nptrs ?m2 h p" "wfn ?m3 h p None None" "kvs ?m3 h p = kvs ?m2 h p"
      using frame[where m = ?m2 and m' = ?m3 and h = h and n = p and lo = None and hi = None] ag3 w2
      by simp_all
    have ff3: "finds ?m3 h p k v"
      using finds_frame[where m = ?m2 and m' = ?m3, OF ag3 w2] finds_cong[OF pp(1,5)] p2(6) by simp
    have notin: "np \<notin> nptrs ?m3 h p" using below2 np2 fr3(1) by auto
    have ro': "root_ok pg3 np h p"
      using fr3(2) pp(3) notin by (simp add: root_ok_def pg3_def)
    have fresh3: "\<forall>q\<ge>next_ptr pg3. ?m3 q = None" using p2(5) by (simp add: pg3_def)
    have same: "finds ?m h node k v \<longrightarrow> kvs ?m3 h p = kvs ?m h node"
      using p2(7) fr3(3) kvs_cong[OF pp(5)] by simp
    show ?thesis using run np0 fresh3 ro' ff3 same by blast
  next
    case True
    define r' where "r' = np + length ps"
    define Ks where "Ks = kid_ents np ps"
    let ?hd = "\<lparr>dlen = BTREE_PAGE_SIZE, btype = BNODE_NODE, nkeys = length ps, ents = []\<rparr>"
    define R where "R = \<lparr>dlen = BTREE_PAGE_SIZE, btype = BNODE_NODE, nkeys = length ps, ents = Ks\<rparr>"
    define pg3 where "pg3 = pg2\<lparr>pages := add_pages ?m2 np ps, next_ptr := r'\<rparr>"
    define pg4 where "pg4 = pg3\<lparr>pages := (pages pg3)(r' \<mapsto> R), next_ptr := r' + 1\<rparr>"
    let ?m4 = "pages pg4"
    have h: "setHeader (make_node BTREE_PAGE_SIZE) BNODE_NODE (length ps) = ?hd"
      by (simp add: setHeader_def make_node_def)
    have kf: "\<forall>p\<in>set ps. kid_fit p" using pok by blast
    have ak: "appendKids pg2 ?hd 0 ps = Some (R, pg3)"
      using appendKids_build[OF kf p2(5)[unfolded np_def], where new = ?hd and i = 0] ps(3) P
      by (simp add: csize_def R_def pg3_def Ks_def np_def r'_def)
    have lK: "length Ks = length ps" by (simp add: Ks_def)
    have sK: "sum_list (map kvsize Ks) \<le> 1004 * length ps" using sum_kid_ents[OF kf] by (simp add: Ks_def)
    have es: "esize (ents R) \<le> 3046" using sK ps(3) lK by (simp add: R_def esize_def)
    have nb: "nbytes R = Some (esize (ents R))" using nbytes_full[of R] es lK by (simp add: R_def)
    have m3: "pages pg3 q = (if np \<le> q \<and> q < r' then Some (ps ! (q - np)) else ?m2 q)" for q
      by (simp add: pg3_def add_pages_apply r'_def)
    have np3: "next_ptr pg3 = r'" by (simp add: pg3_def)
    have m3r: "pages pg3 r' = None" using m3[of r'] p2(5) by (simp add: r'_def)
    have pn: "pager_new pg3 R = Some (r', pg4)"
      using nb es m3r np3 by (simp add: pager_new_def P pg4_def)
    have run: "Insert \<lparr>root = r, pager = pg\<rparr> k v = Some (None, \<lparr>root = r', pager = pg4\<rparr>)"
      using ckl r0 g1 d1 rec ps(1) True ak pn by (simp add: Insert_def h)
    have m4: "?m4 q = (if q = r' then Some R else if np \<le> q \<and> q < r' then Some (ps ! (q - np)) else ?m2 q)" for q
      by (simp add: pg4_def m3)
    have m4new: "\<forall>j<length ps. ?m4 (np + j) = Some (ps ! j)" by (simp add: m4 r'_def)
    have a: "\<forall>p\<in>set ps. btype p = btype c' \<and> node_full p \<and> ents p \<noteq> [] \<and> page_ok p"
      using pok by blast
    have b: "\<forall>q\<in>nptrs ?m2 h c'. ?m4 q = ?m2 q \<and> q < np"
      using below2 by (fastforce simp: m4 r'_def)
    have pc: "chain (kid_ok ?m4 h (wfn ?m4 h)) Ks None None"
        "disj_list (map (subs ?m4 h) Ks)"
        "(\<Union>e\<in>set Ks. subs ?m4 h e) = {np..<np + length ps} \<union> nptrs ?m2 h c'"
      using pieces_chain[OF p2(2) ps(5) psne a b m4new] by (simp_all add: Ks_def)
    have Ksne: "Ks \<noteq> []" using psne by (cases ps) (simp_all add: Ks_def)
    have ko: "keys_ok (keys R) None None"
      using chain_keys_ok[OF pc(1) Ksne] by (simp add: R_def keys_def comp_def)
    have Kok: "entries_ok Ks" "\<forall>e\<in>set Ks. snd (snd e) = []"
      using kid_ents_ok[OF kf, of np] by (simp_all add: Ks_def)
    have wR: "wfn ?m4 (Suc h) R None None"
      using ko Kok pc(1,2) lK ps(3) by (simp add: R_def node_full_def)
    have notin: "r' \<notin> nptrs ?m4 (Suc h) R"
    proof
      assume "r' \<in> nptrs ?m4 (Suc h) R"
      then have "r' \<in> {np..<np + length ps} \<union> nptrs ?m2 h c'"
        unfolding nptrs_Suc using pc(3) by (simp add: R_def)
      then show False using below2[of r'] by (auto simp: r'_def)
    qed
    have ro': "root_ok pg4 r' (Suc h) R"
      using wR notin es P by (simp add: root_ok_def m4 page_ok_def R_def)
    have fresh4: "\<forall>q\<ge>next_ptr pg4. ?m4 q = None"
    proof (intro allI impI)
      fix q assume "next_ptr pg4 \<le> q"
      then have "r' < q" by (simp add: pg4_def)
      then show "?m4 q = None" using p2(5) by (simp add: m4 r'_def)
    qed
    have r'0: "r' \<noteq> 0" using np0 by (simp add: r'_def)
    have ag4: "\<And>q. q \<in> nptrs ?m2 h c' \<Longrightarrow> ?m4 q = ?m2 q" using b by blast
    have f4: "finds ?m4 h c' k v"
      using finds_frame[where m = ?m2 and m' = ?m4, OF ag4 p2(2)] p2(6) by simp
    have srt': "sorted_wrt (<) (tl (keys c'))" using wfn_keys_ok[OF p2(2)] by (simp add: keys_ok_def)
    have pb: "\<forall>p\<in>set ps. btype p = btype c' \<and> ents p \<noteq> []" using pok by blast
    obtain Ps p Qs where loc: "ps = Ps @ p # Qs" "finds ?m4 h p k v"
        "Ps \<noteq> [] \<longrightarrow> hd (keys p) \<le> k" "Qs \<noteq> [] \<longrightarrow> k < hd (keys (hd Qs))"
      using pieces_finds[OF f4 srt' ps(5) psne pb] by blast
    define KP where "KP = kid_ents np Ps"
    define KQ where "KQ = kid_ents (Suc (np + length Ps)) Qs"
    define ke where "ke = (np + length Ps, hd (keys p), [] :: bytes)"
    have Kdec: "Ks = KP @ ke # KQ" by (simp add: Ks_def loc(1) kid_ents_append KP_def KQ_def ke_def)
    have mp: "?m4 (np + length Ps) = Some p" using m4new loc(1) by simp
    have fR: "finds ?m4 (Suc h) R k v"
    proof -
      let ?X = "map ekey KP" and ?Z = "map ekey KQ"
      have kN: "keys R = ?X @ hd (keys p) # ?Z"
        by (simp add: R_def keys_def Kdec comp_def ke_def)
      have sN: "sorted_wrt (<) (tl (?X @ hd (keys p) # ?Z))"
        using ko kN by (simp add: keys_ok_def)
      have c1: "?X \<noteq> [] \<longrightarrow> hd (keys p) \<le> k"
        using loc(3) by (cases Ps) (simp_all add: KP_def)
      have c2: "?Z \<noteq> [] \<longrightarrow> k < hd ?Z"
        using loc(4) by (cases Qs) (simp_all add: KQ_def)
      have "le_pos (keys R) k (length ?X)"
        unfolding kN using le_pos_decomp[OF sN, of k] c1 c2 by blast
      moreover have "ents R ! (length ?X) = ke" by (simp add: R_def Kdec nth_append)
      ultimately show ?thesis using mp loc(2) by (auto simp: R_def ke_def)
    qed
    have nofind: "\<not> finds ?m h node k v"
    proof
      assume "finds ?m h node k v"
      then have "map snd (ents c') = map snd (ents node)" using p2(7) by simp
      then have "esize (ents c') = esize (ents node)" by (rule esize_map_snd)
      then have "ps = [c'\<lparr>dlen := BTREE_PAGE_SIZE\<rparr>]" using ps(7) csz by simp
      then show False using True by simp
    qed
    show ?thesis using run r'0 fresh4 ro' fR nofind by blast
  qed
qed

lemma contents_root_ok:
  "root_ok pg r h node \<Longrightarrow> r \<noteq> 0 \<Longrightarrow> contents \<lparr>root = r, pager = pg\<rparr> = Some (kvs (pages pg) h node)"
  using node_height_wfn[of pg h node None None]
  by (simp add: contents_def root_ok_def pager_get_def)

lemma tree_inv_root:
  assumes "tree_inv t" "root t \<noteq> 0"
  shows "\<exists>h node. root_ok (pager t) (root t) h node"
  using assms by (auto simp: tree_inv_def split: option.splits)

lemma tree_inv_rootI:
  "\<forall>q\<ge>next_ptr pg. pages pg q = None \<Longrightarrow> root_ok pg r h node \<Longrightarrow> r \<noteq> 0
   \<Longrightarrow> tree_inv \<lparr>root = r, pager = pg\<rparr>"
  using node_height_wfn[of pg h node None None] by (simp add: tree_inv_def root_ok_def)

text \<open>The empty tree satisfies the invariant, and \<^verbatim>\<open>Insert\<close> preserves it.\<close>

lemma tree_inv_empty_tree: "tree_inv empty_tree"
  by (simp add: tree_inv_def empty_tree_def)

lemma Insert_preserves_tree_inv:
  assumes inv: "tree_inv t" and lim: "checkLimit k v = None"
  shows "\<exists>t1. Insert t k v = Some (None, t1) \<and> tree_inv t1"
proof -
  have l: "length k \<le> BTREE_MAX_KEY_SIZE" "length v \<le> BTREE_MAX_VAL_SIZE"
    using lim by (simp_all add: checkLimit_None)
  have fresh: "\<forall>q\<ge>next_ptr (pager t). pages (pager t) q = None" using inv by (simp add: tree_inv_def)
  have t: "t = \<lparr>root = root t, pager = pager t\<rparr>" by simp
  have "\<exists>r1 pg1 h1 n1. Insert t k v = Some (None, \<lparr>root = r1, pager = pg1\<rparr>)
           \<and> r1 \<noteq> 0 \<and> (\<forall>q\<ge>next_ptr pg1. pages pg1 q = None) \<and> root_ok pg1 r1 h1 n1"
  proof (cases "root t = 0")
    case True
    have "1 \<le> next_ptr (pager t)" using inv True by (simp add: tree_inv_def)
    then show ?thesis using Insert_empty[OF l fresh] t True by metis
  next
    case False
    obtain h node where "root_ok (pager t) (root t) h node" using tree_inv_root[OF inv False] by blast
    then show ?thesis using Insert_nonempty[OF l fresh _ False, of h node] t by metis
  qed
  then show ?thesis using tree_inv_rootI by blast
qed

text \<open>
  Inserting the same key and value twice in succession leaves the tree with exactly
  the key/value contents it has after the first insert, on every tree with its pager
  that satisfies the invariant \<open>tree_inv\<close>: both calls of \<^verbatim>\<open>Insert\<close> return, with the
  result of \<^verbatim>\<open>checkLimit\<close> as their error; the records in the leaves after the second
  call are those after the first; and when the key and the value are within the
  limits, the key is among them with the value.
\<close>

lemma Insert_twice_same_contents:
  assumes inv: "tree_inv t"
  shows "\<exists>t1 t2 kv. Insert t k v = Some (checkLimit k v, t1)
           \<and> Insert t1 k v = Some (checkLimit k v, t2)
           \<and> contents t1 = Some kv \<and> contents t2 = Some kv
           \<and> (checkLimit k v = None \<longrightarrow> (k, v) \<in> set kv)"
proof (cases "checkLimit k v")
  case (Some err)
  have "Insert t k v = Some (Some err, t)" using Some by (simp add: Insert_def)
  moreover have "\<exists>kv. contents t = Some kv"
  proof (cases "root t = 0")
    case True
    then show ?thesis by (simp add: contents_def)
  next
    case False
    obtain h node where "root_ok (pager t) (root t) h node" using tree_inv_root[OF inv False] by blast
    then have "contents \<lparr>root = root t, pager = pager t\<rparr> = Some (kvs (pages (pager t)) h node)"
      using False by (intro contents_root_ok)
    moreover have "t = \<lparr>root = root t, pager = pager t\<rparr>" by simp
    ultimately show ?thesis by metis
  qed
  ultimately show ?thesis using Some by auto
next
  case None
  then have lim: "length k \<le> BTREE_MAX_KEY_SIZE" "length v \<le> BTREE_MAX_VAL_SIZE"
    by (simp_all add: checkLimit_None)
  have fresh: "\<forall>q\<ge>next_ptr (pager t). pages (pager t) q = None" using inv by (simp add: tree_inv_def)
  have t: "t = \<lparr>root = root t, pager = pager t\<rparr>" by simp
  have first: "\<exists>r1 pg1 h1 n1. Insert t k v = Some (None, \<lparr>root = r1, pager = pg1\<rparr>)
           \<and> r1 \<noteq> 0 \<and> (\<forall>q\<ge>next_ptr pg1. pages pg1 q = None)
           \<and> root_ok pg1 r1 h1 n1 \<and> finds (pages pg1) h1 n1 k v"
  proof (cases "root t = 0")
    case True
    have "1 \<le> next_ptr (pager t)" using inv True by (simp add: tree_inv_def)
    then show ?thesis using Insert_empty[OF lim fresh] t True by metis
  next
    case False
    obtain h node where "root_ok (pager t) (root t) h node" using tree_inv_root[OF inv False] by blast
    then show ?thesis using Insert_nonempty[OF lim fresh _ False, of h node] t by metis
  qed
  then obtain r1 pg1 h1 n1 where a: "Insert t k v = Some (None, \<lparr>root = r1, pager = pg1\<rparr>)"
      "r1 \<noteq> 0" "\<forall>q\<ge>next_ptr pg1. pages pg1 q = None"
      "root_ok pg1 r1 h1 n1" "finds (pages pg1) h1 n1 k v"
    by blast
  obtain r2 pg2 h2 n2 where b: "Insert \<lparr>root = r1, pager = pg1\<rparr> k v = Some (None, \<lparr>root = r2, pager = pg2\<rparr>)"
      "r2 \<noteq> 0" "root_ok pg2 r2 h2 n2" "kvs (pages pg2) h2 n2 = kvs (pages pg1) h1 n1"
    using Insert_nonempty[OF lim a(3,4,2)] a(5) by blast
  have c1: "contents \<lparr>root = r1, pager = pg1\<rparr> = Some (kvs (pages pg1) h1 n1)"
    using contents_root_ok[OF a(4,2)] .
  have c2: "contents \<lparr>root = r2, pager = pg2\<rparr> = Some (kvs (pages pg1) h1 n1)"
    using contents_root_ok[OF b(3,2)] b(4) by simp
  have "(k, v) \<in> set (kvs (pages pg1) h1 n1)" using finds_in_kvs[OF a(5)] .
  then show ?thesis using None a(1) b(1) c1 c2 by auto
qed

text \<open>The tree of height 1 built by three inserts satisfies the invariant.\<close>

lemma tree_inv_tree3: "tree_inv tree3"
proof -
  let ?L1 = "\<lparr>dlen = 4096, btype = 2, nkeys = 2, ents = [(0, [], []), (0, [97], val7)]\<rparr>"
  let ?L2 = "\<lparr>dlen = 4096, btype = 2, nkeys = 2, ents = [(0, [98], [1]), (0, [99], val8)]\<rparr>"
  let ?R = "\<lparr>dlen = 4096, btype = 1, nkeys = 2, ents = [(3, [], []), (4, [98], [])]\<rparr>"
  let ?pg = "\<lparr>pages = [3 \<mapsto> ?L1, 4 \<mapsto> ?L2, 5 \<mapsto> ?R], next_ptr = 6\<rparr>"
  have t: "tree3 = \<lparr>root = 5, pager = ?pg\<rparr>" by (simp add: tree3_def)
  have h: "node_height ?pg ?R = Some (Suc 0)"
    by (simp add: node_height.simps getPtr_def pager_get_def BNODE_LEAF_def BNODE_NODE_def)
  have ro: "root_ok ?pg 5 (Suc 0) ?R"
    by (simp add: root_ok_def page_ok_def esize_def kvsize_def BTREE_PAGE_SIZE_def
        node_full_def entries_ok_def entry_ok_def BTREE_MAX_KEY_SIZE_def BTREE_MAX_VAL_SIZE_def
        keys_ok_def keys_def kid_ok_def subs_def BNODE_LEAF_def BNODE_NODE_def)
  have fresh: "\<forall>q\<ge>6. pages ?pg q = None" by auto
  show ?thesis unfolding t tree_inv_def using h ro fresh by simp
qed

lemma Insert_twice_same_contents_tree3:
  "tree_inv tree3
   \<and> (\<exists>t1 t2 kv. Insert tree3 [99] val8 = Some (None, t1) \<and> Insert t1 [99] val8 = Some (None, t2)
         \<and> contents t1 = Some kv \<and> contents t2 = Some kv \<and> ([99], val8) \<in> set kv)"
proof -
  have c: "checkLimit [99] val8 = None"
    by (simp add: checkLimit_def BTREE_MAX_KEY_SIZE_def BTREE_MAX_VAL_SIZE_def)
  show ?thesis using Insert_twice_same_contents[OF tree_inv_tree3, of "[99]" val8] tree_inv_tree3
    unfolding c by simp
qed

subsection \<open>Insert after the last key is deleted\<close>

lemma del1: "Delete tree1 [98] = Some (True, tree_b_deleted)"
  by (simp add: Delete_def tree1_def tree_b_deleted_def treeDelete.simps node_defs pager_defs BNode_nil_def)

lemma del2: "Delete tree_b_deleted [] = Some (True, tree_emptied)"
  by (simp add: Delete_def tree_b_deleted_def tree_emptied_def treeDelete.simps node_defs pager_defs BNode_nil_def)

text \<open>
  Claim C9. For every key and value and every tree state, inserting the same key and
  value twice in succession yields a tree with exactly the key/value contents of
  inserting once. On the trees that satisfy \<open>tree_inv\<close> this holds
  (\<open>Insert_twice_same_contents\<close>). \<^verbatim>\<open>Delete\<close> of operations.go leads out of them: it
  accepts the empty key and removes the dummy key with it, and when the last key of
  the root leaf is deleted it stores a leaf with no key as the root, where
  \<^verbatim>\<open>Delete\<close> of unnamed/part\_001 sets \<^verbatim>\<open>root = 0\<close>. On that tree \<^verbatim>\<open>Insert\<close> yields
  no tree, once or twice: \<^verbatim>\<open>nodeLookupLE\<close> returns 0 and the assertion
  \<^verbatim>\<open>idx < node.nkeys()\<close> of \<^verbatim>\<open>getKey\<close> fails, although \<^verbatim>\<open>Insert\<close> documents the
  limits on the lengths as \<^verbatim>\<open>the only way for an update to fail\<close>.
\<close>

theorem Insert_panics_on_emptied_tree:
  "Insert empty_tree [98] [1] = Some (None, tree1)
   \<and> Delete tree1 [98] = Some (True, tree_b_deleted)
   \<and> Delete tree_b_deleted [] = Some (True, tree_emptied)
   \<and> root tree_emptied \<noteq> 0
   \<and> Insert tree_emptied [98] [1] = None"
proof -
  have "Insert tree_emptied [98] [1] = None"
    by (simp add: Insert_def tree_emptied_def treeInsert.simps node_defs pager_defs)
  then show ?thesis using ins1 del1 del2 by (simp add: tree_emptied_def)
qed
end
